theory Spec2Isabelle
  imports Complex_Main
begin

section \<open>The scheduling policies of schedulers.cpp\<close>

text \<open>
  The four policies of \<^verbatim>\<open>schedulers.cpp\<close> are embedded as functions that take the
  function-local \<^verbatim>\<open>static\<close> variables as an explicit state and return the decision
  together with the new state. Undefined behaviour of the C++ source (an index beyond the
  end of the process vector, the front of an empty deque) is an error value.

  The C++ type \<^verbatim>\<open>int\<close> is modelled by \<^typ>\<open>int\<close>: signed overflow is undefined in
  C++, and the model describes the executions in which no counter leaves the 32-bit range.
  The two subtractions of the waiting time (lines 172-173), on whose value a decision
  depends, are written with the wrap-around of the compiled code, and the theorem on that
  decision assumes that they do not overflow.
  The type \<^verbatim>\<open>float\<close> is modelled by the rationals that IEEE 754 single precision
  represents, each operation rounded to nearest, ties to even.
\<close>

subsection \<open>Data\<close>

text \<open>
  Modelled from the spec: the struct \<^verbatim>\<open>Process\<close> is declared in \<^verbatim>\<open>schedulers.h\<close>,
  which is not among the sources. The fields are the four that the policies read, under the
  names the source uses (the spec calls them arrivalTime, serviceTimeNeeded, timeScheduled
  and isDone), with the integer and boolean types the spec gives them.
\<close>

record Process =
  startTime :: int
  totalTimeNeeded :: int
  timeScheduled :: int
  isDone :: bool

datatype error = OutOfRange | EmptyQueue

text \<open>The statics of \<^verbatim>\<open>RoundRobin\<close>.\<close>

record RRState =
  timeToNextSched :: int
  ready :: "nat list"

text \<open>
  The statics \<^verbatim>\<open>index\<close> and \<^verbatim>\<open>runTime\<close> that each of the other three policies
  declares for itself. \<^verbatim>\<open>index\<close> starts at 0 and is only ever assigned a loop counter,
  so it is a natural number.
\<close>

record SelState =
  index :: nat
  runTime :: int

definition initSel :: SelState where
  "initSel = \<lparr>index = 0, runTime = 0\<rparr>"

text \<open>
  \<^verbatim>\<open>static int timeToNextSched = timeQuantum\<close> is initialised by the first call, from
  the quantum of that call.
\<close>

definition initRR :: "int \<Rightarrow> RRState" where
  "initRR timeQuantum = \<lparr>timeToNextSched = timeQuantum, ready = []\<rparr>"

subsection \<open>32-bit integers\<close>

text \<open>The values of the C++ type \<^verbatim>\<open>int\<close>, and the two's complement value of a result.\<close>

definition inRange32 :: "int \<Rightarrow> bool" where
  "inRange32 x \<longleftrightarrow> - 2147483648 \<le> x \<and> x \<le> 2147483647"

definition wrap32 :: "int \<Rightarrow> int" where
  "wrap32 x = (x + 2147483648) mod 4294967296 - 2147483648"

subsection \<open>Single-precision arithmetic\<close>

function bitLength :: "int \<Rightarrow> nat" where
  "bitLength n = (if n \<le> 0 then 0 else Suc (bitLength (n div 2)))"
  by pat_completeness auto
termination
  by (relation "measure nat") auto

declare bitLength.simps [simp del]

text \<open>The quotient of a non-negative by a positive integer, rounded to nearest, ties to even.\<close>

definition roundDiv :: "int \<Rightarrow> int \<Rightarrow> int" where
  "roundDiv a b = (let q = a div b; r = a mod b in
     if 2 * r < b then q else if b < 2 * r then q + 1 else if even q then q else q + 1)"

text \<open>
  The conversion of an integer to \<^verbatim>\<open>float\<close>, and with it the sum of two floats of
  integer value: the integer is kept when it has at most 24 significant bits, and rounded
  to 24 significant bits otherwise.
\<close>

definition floatOfInt :: "int \<Rightarrow> int" where
  "floatOfInt n = (if \<bar>n\<bar> < 2 ^ 24 then n
     else sgn n * (roundDiv \<bar>n\<bar> (2 ^ (bitLength \<bar>n\<bar> - 24)) * 2 ^ (bitLength \<bar>n\<bar> - 24)))"

text \<open>
  The quotient of two floats of integer value, the divisor not zero, rounded to 24
  significant bits: \<open>e\<close> is the binary exponent of the exact quotient and \<open>m\<close> its
  rounded significand.
\<close>

definition floatQuot :: "int \<Rightarrow> int \<Rightarrow> rat" where
  "floatQuot a b = (if a = 0 then 0 else
     let n = \<bar>a\<bar>; d = \<bar>b\<bar>;
         k = int (bitLength n) - int (bitLength d);
         e = (if (0 \<le> k \<and> d * 2 ^ nat k \<le> n) \<or> (k < 0 \<and> d \<le> n * 2 ^ nat (- k))
              then k else k - 1);
         m = (if 23 \<le> e then roundDiv n (d * 2 ^ nat (e - 23))
              else roundDiv (n * 2 ^ nat (23 - e)) d)
     in of_int (sgn a * sgn b) *
        (if 23 \<le> e then of_int (m * 2 ^ nat (e - 23)) else of_int m / 2 ^ nat (23 - e)))"

text \<open>
  A float that a division returns: a finite value, or what IEEE 754 gives for a zero
  divisor (the source does not guard the division).
\<close>

datatype fval = Fin rat | PInf | NInf | NaN

definition floatDiv :: "int \<Rightarrow> int \<Rightarrow> fval" where
  "floatDiv a b = (if b = 0 then (if a = 0 then NaN else if 0 < a then PInf else NInf)
     else Fin (floatQuot a b))"

text \<open>The comparison \<^verbatim>\<open>x > y\<close> of two floats; it is false when either is not a number.\<close>

fun floatGreater :: "fval \<Rightarrow> fval \<Rightarrow> bool" where
  "floatGreater NaN y = False"
| "floatGreater x NaN = False"
| "floatGreater x PInf = False"
| "floatGreater PInf y = True"
| "floatGreater NInf y = False"
| "floatGreater (Fin a) NInf = True"
| "floatGreater (Fin a) (Fin b) = (b < a)"

subsection \<open>The loops that the three selecting policies share\<close>

text \<open>
  The first loop (lines 75-80, 118-123, 163-168): the first process that is not done and has
  started becomes the index, when \<^verbatim>\<open>runTime\<close> is 0; the \<^verbatim>\<open>break\<close> is the
  \<^const>\<open>find\<close>.
\<close>

definition firstReady :: "int \<Rightarrow> Process list \<Rightarrow> int \<Rightarrow> nat \<Rightarrow> nat" where
  "firstReady curTime procList rt idx =
     (case find (\<lambda>y. \<not> isDone (procList ! y) \<and> startTime (procList ! y) \<le> curTime \<and> rt = 0)
             [0..<length procList] of
        Some y \<Rightarrow> y
      | None \<Rightarrow> idx)"

text \<open>The last loop (lines 91-96, 136-141, 184-189) counts the processes that are done.\<close>

definition countDone :: "Process list \<Rightarrow> nat" where
  "countDone procList =
     fold (\<lambda>z count. if isDone (procList ! z) then count + 1 else count) [0..<length procList] 0"

subsection \<open>Shortest Process Next\<close>

definition ShortestProcessNext :: "int \<Rightarrow> Process list \<Rightarrow> SelState \<Rightarrow> error + int \<times> SelState" where
  "ShortestProcessNext curTime procList s =
     (if length procList \<le> index s then Inl OutOfRange
      else
        let rt = (if isDone (procList ! index s) then 0 else runTime s);
            i1 = firstReady curTime procList rt (index s);
            i2 = fold (\<lambda>x i.
                   if startTime (procList ! x) \<le> curTime
                      \<and> totalTimeNeeded (procList ! x) < totalTimeNeeded (procList ! i)
                      \<and> \<not> isDone (procList ! x) \<and> rt = 0
                   then x else i) [0..<length procList] i1
        in Inr (if countDone procList = length procList then - 1 else int i2,
                \<lparr>index = i2, runTime = rt + 1\<rparr>))"

subsection \<open>Shortest Remaining Time\<close>

text \<open>
  The remaining times are converted to \<^verbatim>\<open>float\<close> before they are compared. The
  increment of \<^verbatim>\<open>runTime\<close> is commented out in the source (line 133), and the quantum
  is not used.
\<close>

definition ShortestRemainingTime ::
  "int \<Rightarrow> Process list \<Rightarrow> int \<Rightarrow> SelState \<Rightarrow> error + int \<times> SelState" where
  "ShortestRemainingTime curTime procList timeQuantum s =
     (if length procList \<le> index s then Inl OutOfRange
      else
        let rt = (if isDone (procList ! index s) then 0 else runTime s);
            i1 = firstReady curTime procList rt (index s);
            i2 = fold (\<lambda>x i.
                   let indexTimeRemaining =
                         floatOfInt (totalTimeNeeded (procList ! i) - timeScheduled (procList ! i));
                       xTimeRemaining =
                         floatOfInt (totalTimeNeeded (procList ! x) - timeScheduled (procList ! x))
                   in if startTime (procList ! x) \<le> curTime
                         \<and> xTimeRemaining < indexTimeRemaining
                         \<and> \<not> isDone (procList ! x) \<and> rt = 0
                      then x else i) [0..<length procList] i1
        in Inr (if countDone procList = length procList then - 1 else int i2,
                \<lparr>index = i2, runTime = rt\<rparr>))"

subsection \<open>Highest Response Ratio Next\<close>

text \<open>
  The ratio of lines 172-175 for one process: the waiting time, two \<^verbatim>\<open>int\<close>
  subtractions, converted to \<^verbatim>\<open>float\<close>, the float sum with the time needed, the
  float quotient.
\<close>

definition responseRatio :: "int \<Rightarrow> Process \<Rightarrow> fval" where
  "responseRatio curTime p =
     (let timeSpentWaiting =
            floatOfInt (wrap32 (wrap32 (curTime - startTime p) - timeScheduled p))
      in floatDiv (floatOfInt (timeSpentWaiting + floatOfInt (totalTimeNeeded p)))
                  (floatOfInt (totalTimeNeeded p)))"

definition HighestResponseRatioNext ::
  "int \<Rightarrow> Process list \<Rightarrow> SelState \<Rightarrow> error + int \<times> SelState" where
  "HighestResponseRatioNext curTime procList s =
     (if length procList \<le> index s then Inl OutOfRange
      else
        let rt = (if isDone (procList ! index s) then 0 else runTime s);
            i1 = firstReady curTime procList rt (index s);
            i2 = fold (\<lambda>x i.
                   let xRatio = responseRatio curTime (procList ! x);
                       indexRatio = responseRatio curTime (procList ! i)
                   in if startTime (procList ! x) \<le> curTime
                         \<and> floatGreater xRatio indexRatio
                         \<and> \<not> isDone (procList ! x) \<and> rt = 0
                      then x else i) [0..<length procList] i1
        in Inr (if countDone procList = length procList then - 1 else int i2,
                \<lparr>index = i2, runTime = rt + 1\<rparr>))"

subsection \<open>Round Robin\<close>

text \<open>
  \<^verbatim>\<open>procList[ready[0]].isDone\<close>: the front of an empty deque is undefined, and so is
  an element beyond the end of the vector.
\<close>

definition headIsDone :: "Process list \<Rightarrow> nat list \<Rightarrow> error + bool" where
  "headIsDone procList r =
     (case r of
        [] \<Rightarrow> Inl EmptyQueue
      | h # _ \<Rightarrow> if h < length procList then Inr (isDone (procList ! h)) else Inl OutOfRange)"

text \<open>Lines 42-59: the decision, once the queue has been brought up to date.\<close>

definition rrDecide :: "int \<Rightarrow> nat list \<Rightarrow> int \<times> RRState" where
  "rrDecide t r =
     (if r \<noteq> [] then (int (hd r), \<lparr>timeToNextSched = t - 1, ready = r\<rparr>)
      else (- 1, \<lparr>timeToNextSched = 0, ready = r\<rparr>))"

text \<open>Lines 13-21: the processes that start at this tick join the back of the queue.\<close>

definition admit :: "int \<Rightarrow> Process list \<Rightarrow> nat list \<Rightarrow> nat list" where
  "admit curTime procList r =
     fold (\<lambda>i r. if startTime (procList ! i) = curTime then r @ [i] else r)
       [0..<length procList] r"

text \<open>
  The condition of line 25 evaluates its second operand only when the first is false; the
  test of line 31 reads the front again.
\<close>

definition RoundRobin :: "int \<Rightarrow> Process list \<Rightarrow> int \<Rightarrow> RRState \<Rightarrow> error + int \<times> RRState" where
  "RoundRobin curTime procList timeQuantum s =
     (let r1 = admit curTime procList (ready s)
      in case (if timeToNextSched s = 0 then Inr True else headIsDone procList r1) of
           Inl e \<Rightarrow> Inl e
         | Inr False \<Rightarrow> Inr (rrDecide (timeToNextSched s) r1)
         | Inr True \<Rightarrow>
             (case headIsDone procList r1 of
                Inl e \<Rightarrow> Inl e
              | Inr d \<Rightarrow> Inr (rrDecide timeQuantum (tl (if \<not> d then r1 @ [hd r1] else r1)))))"

subsection \<open>The driver\<close>

text \<open>
  Modelled from the spec: the simulation driver is not among the sources. Section 6 of the
  spec has it present each tick once, in order, and apply the decision of a tick before the
  next call: the process that ran has \<^verbatim>\<open>timeScheduled\<close> incremented and is marked done
  when \<^verbatim>\<open>timeScheduled\<close> reaches \<^verbatim>\<open>totalTimeNeeded\<close>.
\<close>

definition applyDecision :: "int \<Rightarrow> Process list \<Rightarrow> Process list" where
  "applyDecision d procList =
     (if 0 \<le> d \<and> nat d < length procList
      then let p = (procList ! nat d)\<lparr>timeScheduled := timeScheduled (procList ! nat d) + 1\<rparr>
           in procList[nat d := (if timeScheduled p = totalTimeNeeded p then p\<lparr>isDone := True\<rparr> else p)]
      else procList)"

text \<open>
  \<open>simulate step n t\<close> runs \<open>n\<close> consecutive ticks from tick \<open>t\<close> and returns the
  decisions, the roster and the scheduler state after them.
\<close>

fun simulate :: "(int \<Rightarrow> Process list \<Rightarrow> 's \<Rightarrow> error + int \<times> 's) \<Rightarrow> nat \<Rightarrow> int \<Rightarrow> Process list \<Rightarrow> 's
    \<Rightarrow> error + int list \<times> Process list \<times> 's" where
  "simulate step 0 t procList s = Inr ([], procList, s)"
| "simulate step (Suc n) t procList s =
     (case step t procList s of
        Inl e \<Rightarrow> Inl e
      | Inr (d, s') \<Rightarrow>
          (case simulate step n (t + 1) (applyDecision d procList) s' of
             Inl e \<Rightarrow> Inl e
           | Inr (ds, procList', s'') \<Rightarrow> Inr (d # ds, procList', s'')))"

text \<open>
  \<open>answers step s calls\<close> are the decisions of successive calls, each with its own tick
  and roster, whatever the driver did in between.
\<close>

fun answers :: "(int \<Rightarrow> Process list \<Rightarrow> 's \<Rightarrow> error + int \<times> 's) \<Rightarrow> 's \<Rightarrow> (int \<times> Process list) list
    \<Rightarrow> error + int list \<times> 's" where
  "answers step s [] = Inr ([], s)"
| "answers step s ((t, procList) # calls) =
     (case step t procList s of
        Inl e \<Rightarrow> Inl e
      | Inr (d, s') \<Rightarrow>
          (case answers step s' calls of
             Inl e \<Rightarrow> Inl e
           | Inr (ds, s'') \<Rightarrow> Inr (d # ds, s'')))"

subsection \<open>Notions of the specification\<close>

text \<open>An eligible process has arrived and is not done (glossary of the spec).\<close>

definition eligible :: "int \<Rightarrow> Process \<Rightarrow> bool" where
  "eligible curTime p \<longleftrightarrow> startTime p \<le> curTime \<and> \<not> isDone p"

definition allDone :: "Process list \<Rightarrow> bool" where
  "allDone procList \<longleftrightarrow> list_all isDone procList"

text \<open>
  The values of a call and a process are C++ ints, and the two subtractions of the waiting
  time stay inside the type.
\<close>

definition noOverflow :: "int \<Rightarrow> Process \<Rightarrow> bool" where
  "noOverflow curTime p \<longleftrightarrow>
     inRange32 curTime \<and> inRange32 (startTime p) \<and> inRange32 (totalTimeNeeded p)
     \<and> inRange32 (timeScheduled p)
     \<and> inRange32 (curTime - startTime p)
     \<and> inRange32 (curTime - startTime p - timeScheduled p)"

text \<open>
  The response ratio as section 4.4 of the spec writes it, in exact arithmetic:
  \<open>(waitingTime + serviceTimeNeeded) / serviceTimeNeeded\<close>.
\<close>

definition specResponseRatio :: "int \<Rightarrow> Process \<Rightarrow> rat" where
  "specResponseRatio curTime p =
     (of_int (curTime - startTime p - timeScheduled p) + of_int (totalTimeNeeded p))
       / of_int (totalTimeNeeded p)"

subsection \<open>The common skeleton\<close>

text \<open>
  The skeleton that the three selecting policies instantiate: \<open>better x i\<close> is the
  comparison of the second loop and \<open>inc\<close> what the call adds to \<^verbatim>\<open>runTime\<close>.
\<close>

definition selectBy :: "(nat \<Rightarrow> nat \<Rightarrow> bool) \<Rightarrow> int \<Rightarrow> int \<Rightarrow> Process list \<Rightarrow> SelState
    \<Rightarrow> error + int \<times> SelState" where
  "selectBy better inc curTime procList s =
     (if length procList \<le> index s then Inl OutOfRange
      else
        let rt = (if isDone (procList ! index s) then 0 else runTime s);
            i1 = firstReady curTime procList rt (index s);
            i2 = fold (\<lambda>x i.
                   if startTime (procList ! x) \<le> curTime \<and> better x i
                      \<and> \<not> isDone (procList ! x) \<and> rt = 0
                   then x else i) [0..<length procList] i1
        in Inr (if countDone procList = length procList then - 1 else int i2,
                \<lparr>index = i2, runTime = rt + inc\<rparr>))"

subsection \<open>Notions for the runs\<close>

text \<open>
  A roster is well formed when every process that is not done has scheduled less than it
  needs, and fresh when nothing has been scheduled yet and every process needs some time.
  The remaining work is the time that the processes not done still need.
\<close>

definition wellFormed :: "Process list \<Rightarrow> bool" where
  "wellFormed procList \<longleftrightarrow> list_all (\<lambda>p. isDone p \<or> timeScheduled p < totalTimeNeeded p) procList"

definition remaining :: "Process list \<Rightarrow> int" where
  "remaining procList =
     sum_list (map (\<lambda>p. if isDone p then 0 else totalTimeNeeded p - timeScheduled p) procList)"

definition fresh :: "Process list \<Rightarrow> bool" where
  "fresh procList \<longleftrightarrow>
     list_all (\<lambda>p. 0 < totalTimeNeeded p \<and> timeScheduled p = 0 \<and> \<not> isDone p) procList"

text \<open>
  The ready queue of Round Robin between two calls: without repetition, not empty, holding
  every process that is not done, and only its head may be done.
\<close>

definition queueOk :: "Process list \<Rightarrow> nat list \<Rightarrow> bool" where
  "queueOk procList r \<longleftrightarrow>
     distinct r \<and> r \<noteq> [] \<and> list_all (\<lambda>i. i < length procList) r
     \<and> list_all (\<lambda>i. isDone (procList ! i) \<or> i \<in> set r) [0..<length procList]
     \<and> list_all (\<lambda>i. \<not> isDone (procList ! i)) (tl r)"

subsection \<open>Rosters of the scenarios\<close>

text \<open>A process as the roster holds it before the run: nothing scheduled, not done.\<close>

definition mkProcess :: "int \<Rightarrow> int \<Rightarrow> Process" where
  "mkProcess arrival need =
     \<lparr>startTime = arrival, totalTimeNeeded = need, timeScheduled = 0, isDone = False\<rparr>"

text \<open>
  The rosters of section 8 of the spec: the tie of Shortest Process Next, and the Round
  Robin scenario.
\<close>

definition tieRoster :: "Process list" where
  "tieRoster = [mkProcess 0 4, mkProcess 0 4]"

definition rrRoster :: "Process list" where
  "rrRoster = [mkProcess 0 3, mkProcess 1 2]"

text \<open>
  A roster with an arrival gap: the first process is done after tick 0, the second arrives
  at tick 5.
\<close>

definition gapRoster :: "Process list" where
  "gapRoster = [mkProcess 0 1, mkProcess 5 1]"

text \<open>Rosters in which a short process arrives while a long one is running.\<close>

definition shortLateRoster :: "Process list" where
  "shortLateRoster = [mkProcess 0 5, mkProcess 1 1]"

definition preemptRoster :: "Process list" where
  "preemptRoster = [mkProcess 0 3, mkProcess 1 1]"

text \<open>
  A roster whose second response ratio at tick 1, \<open>33554433 / 33554432\<close>, is above 1 and
  is 1 in single precision.
\<close>

definition roundedRoster :: "Process list" where
  "roundedRoster = [mkProcess 1 1, mkProcess 0 33554432]"

text \<open>Further rosters on which the theorems are instantiated.\<close>

definition mixedRoster :: "Process list" where
  "mixedRoster = [mkProcess 0 5, mkProcess 0 3, mkProcess 9 1]"

definition lateRoster :: "Process list" where
  "lateRoster = [mkProcess 3 1]"

definition reselectRoster :: "Process list" where
  "reselectRoster = [mkProcess 0 1, mkProcess 0 4, mkProcess 0 2]"

definition ratioRoster :: "Process list" where
  "ratioRoster = [mkProcess 0 2, mkProcess 0 4, mkProcess 0 2]"

text \<open>The roster of the Highest Response Ratio Next scenario of section 8 of the spec.\<close>

definition hrrnRoster :: "Process list" where
  "hrrnRoster = [mkProcess 0 5, mkProcess 3 1]"

definition lockRoster :: "Process list" where
  "lockRoster = [mkProcess 3 2, mkProcess 1 1]"

definition waitingRoster :: "Process list" where
  "waitingRoster = [mkProcess 0 4, mkProcess 0 2]"

section \<open>The loops\<close>

text \<open>
  The three policies are instances of the skeleton, so a property of the skeleton is one of
  each.
\<close>

lemma ShortestProcessNext_selectBy:
  "ShortestProcessNext curTime procList =
     selectBy (\<lambda>x i. totalTimeNeeded (procList ! x) < totalTimeNeeded (procList ! i)) 1
       curTime procList"
  by (rule ext) (simp add: ShortestProcessNext_def selectBy_def)

lemma ShortestRemainingTime_selectBy:
  "ShortestRemainingTime curTime procList timeQuantum =
     selectBy (\<lambda>x i. floatOfInt (totalTimeNeeded (procList ! x) - timeScheduled (procList ! x))
                    < floatOfInt (totalTimeNeeded (procList ! i) - timeScheduled (procList ! i))) 0
       curTime procList"
  by (rule ext) (simp add: ShortestRemainingTime_def selectBy_def Let_def)

lemma HighestResponseRatioNext_selectBy:
  "HighestResponseRatioNext curTime procList =
     selectBy (\<lambda>x i. floatGreater (responseRatio curTime (procList ! x))
                                  (responseRatio curTime (procList ! i))) 1
       curTime procList"
  by (rule ext) (simp add: HighestResponseRatioNext_def selectBy_def Let_def)

lemma countDone_aux:
  "n \<le> length ps \<Longrightarrow>
   fold (\<lambda>z count. if isDone (ps ! z) then count + 1 else count) [0..<n] c
     = c + length (filter isDone (take n ps))"
proof (induction n)
  case 0
  then show ?case by simp
next
  case (Suc n)
  then have "take (Suc n) ps = take n ps @ [ps ! n]"
    by (simp add: take_Suc_conv_app_nth)
  with Suc show ?case by simp
qed

lemma countDone_filter: "countDone ps = length (filter isDone ps)"
  using countDone_aux [of "length ps" ps 0] by (simp add: countDone_def)

lemma countDone_allDone: "countDone ps = length ps \<longleftrightarrow> allDone ps"
proof -
  have "length (filter isDone ps) = length ps \<longleftrightarrow> (\<forall>p\<in>set ps. isDone p)"
  proof (induction ps)
    case Nil
    then show ?case by simp
  next
    case (Cons a ps)
    have "length (filter isDone ps) \<le> length ps" by simp
    then have "length (filter isDone ps) \<noteq> Suc (length ps)" by linarith
    with Cons show ?case by simp
  qed
  then show ?thesis
    by (simp add: countDone_filter allDone_def list_all_iff)
qed

lemma allDone_nth: "allDone ps \<longleftrightarrow> (\<forall>k<length ps. isDone (ps ! k))"
  by (simp add: allDone_def list_all_length)

lemma firstReady_locked: "rt \<noteq> 0 \<Longrightarrow> firstReady t ps rt idx = idx"
  by (simp add: firstReady_def find_None_iff[THEN iffD2])

lemma firstReady_none:
  "\<forall>k<length ps. \<not> eligible t (ps ! k) \<Longrightarrow> firstReady t ps rt idx = idx"
proof -
  assume a: "\<forall>k<length ps. \<not> eligible t (ps ! k)"
  have "find (\<lambda>y. \<not> isDone (ps ! y) \<and> startTime (ps ! y) \<le> t \<and> rt = 0) [0..<length ps] = None"
    using a by (auto simp: find_None_iff eligible_def)
  then show ?thesis by (simp add: firstReady_def)
qed

lemma firstReady_some:
  assumes "k < length ps" "eligible t (ps ! k)"
  shows "firstReady t ps 0 idx < length ps
         \<and> eligible t (ps ! firstReady t ps 0 idx)
         \<and> (\<forall>j<firstReady t ps 0 idx. \<not> eligible t (ps ! j))"
proof -
  let ?P = "\<lambda>y. \<not> isDone (ps ! y) \<and> startTime (ps ! y) \<le> t \<and> (0::int) = 0"
  have "find ?P [0..<length ps] \<noteq> None"
    using assms by (auto simp: find_None_iff eligible_def)
  then obtain y where y: "find ?P [0..<length ps] = Some y" by auto
  then obtain i where i: "i < length [0..<length ps]" "?P ([0..<length ps] ! i)"
      "y = [0..<length ps] ! i" "\<forall>j<i. \<not> ?P ([0..<length ps] ! j)"
    unfolding find_Some_iff by blast
  then have "y < length ps" "eligible t (ps ! y)" "\<forall>j<y. \<not> eligible t (ps ! j)"
    by (auto simp: eligible_def)
  moreover have "firstReady t ps 0 idx = y"
    using y by (simp add: firstReady_def)
  ultimately show ?thesis by simp
qed

lemma firstReady_indep:
  assumes "k < length ps" "eligible t (ps ! k)"
  shows "firstReady t ps 0 idx = firstReady t ps 0 idx'"
proof -
  let ?P = "\<lambda>y. \<not> isDone (ps ! y) \<and> startTime (ps ! y) \<le> t \<and> (0::int) = 0"
  have "find ?P [0..<length ps] \<noteq> None"
    using assms by (auto simp: find_None_iff eligible_def)
  then obtain y where "find ?P [0..<length ps] = Some y" by auto
  then show ?thesis by (simp add: firstReady_def)
qed

lemma scan_inv:
  assumes "P i0" and "\<And>x i. x < n \<Longrightarrow> c x i \<Longrightarrow> P x"
  shows "P (fold (\<lambda>x i. if c x i then x else i) [0..<n] i0)"
  using assms by (induction n) auto

lemma scan_noop:
  assumes "\<And>x i. x < n \<Longrightarrow> \<not> c x i"
  shows "fold (\<lambda>x i. if c x i then x else i) [0..<n] i0 = i0"
  using assms by (induction n) auto

lemma scan_best:
  fixes key :: "nat \<Rightarrow> 'a::linorder"
  assumes c: "\<And>x i. x < N \<Longrightarrow> i < N \<Longrightarrow> c x i \<longleftrightarrow> el x \<and> key x < key i"
    and i0: "el i0" "\<forall>k<i0. \<not> el k" "i0 < N"
    and n: "n \<le> N"
  shows "el (fold (\<lambda>x i. if c x i then x else i) [0..<n] i0)
       \<and> (\<forall>k<n. el k \<longrightarrow> key (fold (\<lambda>x i. if c x i then x else i) [0..<n] i0) \<le> key k)
       \<and> (\<forall>k<fold (\<lambda>x i. if c x i then x else i) [0..<n] i0. el k \<longrightarrow>
              key (fold (\<lambda>x i. if c x i then x else i) [0..<n] i0) < key k)
       \<and> fold (\<lambda>x i. if c x i then x else i) [0..<n] i0 < N"
  using n
proof (induction n)
  case 0
  then show ?case using i0 by simp
next
  case (Suc n)
  let ?i = "fold (\<lambda>x i. if c x i then x else i) [0..<n] i0"
  have IH: "el ?i" "\<forall>k<n. el k \<longrightarrow> key ?i \<le> key k" "\<forall>k<?i. el k \<longrightarrow> key ?i < key k" "?i < N"
    using Suc by simp_all
  have nN: "n < N" using Suc.prems by simp
  have step: "fold (\<lambda>x i. if c x i then x else i) [0..<Suc n] i0 = (if c n ?i then n else ?i)"
    by simp
  show ?case
  proof (cases "c n ?i")
    case True
    then have n: "el n" "key n < key ?i" using c [OF nN IH(4)] by auto
    have lt: "key n < key k" if "k < n" "el k" for k
    proof -
      have "key ?i \<le> key k" using IH(2) that by blast
      with n(2) show ?thesis by (rule less_le_trans)
    qed
    have "\<forall>k<Suc n. el k \<longrightarrow> key n \<le> key k"
    proof (intro allI impI)
      fix k assume "k < Suc n" "el k"
      then show "key n \<le> key k"
        using lt [of k] by (cases "k = n") (auto simp: less_Suc_eq)
    qed
    moreover have "\<forall>k<n. el k \<longrightarrow> key n < key k"
      using lt by blast
    ultimately show ?thesis unfolding step using True n nN by simp
  next
    case False
    then have "el n \<longrightarrow> key ?i \<le> key n" using c [OF nN IH(4)] by auto
    then have "\<forall>k<Suc n. el k \<longrightarrow> key ?i \<le> key k"
      using IH(2) by (auto simp: less_Suc_eq)
    then show ?thesis unfolding step using False IH by simp
  qed
qed

section \<open>One call of the skeleton\<close>

lemma eligible_not_allDone: "k < length ps \<Longrightarrow> eligible t (ps ! k) \<Longrightarrow> \<not> allDone ps"
  by (auto simp: allDone_nth eligible_def)

lemma selectBy_general:
  assumes "index s < length ps"
  shows "\<exists>j<length ps. selectBy better inc t ps s =
           Inr (if allDone ps then - 1 else int j,
                \<lparr>index = j, runTime = (if isDone (ps ! index s) then 0 else runTime s) + inc\<rparr>)"
proof -
  let ?rt = "if isDone (ps ! index s) then 0 else runTime s"
  let ?c = "\<lambda>x i. startTime (ps ! x) \<le> t \<and> better x i \<and> \<not> isDone (ps ! x) \<and> ?rt = 0"
  let ?i1 = "firstReady t ps ?rt (index s)"
  let ?j = "fold (\<lambda>x i. if ?c x i then x else i) [0..<length ps] ?i1"
  have "?i1 < length ps"
  proof (cases "?rt = 0 \<and> (\<exists>k<length ps. eligible t (ps ! k))")
    case True
    then show ?thesis using firstReady_some [of _ ps t "index s"] by auto
  next
    case False
    then show ?thesis
      using assms firstReady_locked [of ?rt t ps "index s"] firstReady_none [of ps t ?rt "index s"]
      by auto
  qed
  then have "?j < length ps"
    by (rule scan_inv) simp
  moreover have "selectBy better inc t ps s =
      Inr (if allDone ps then - 1 else int ?j, \<lparr>index = ?j, runTime = ?rt + inc\<rparr>)"
    using assms by (simp add: selectBy_def Let_def countDone_allDone)
  ultimately show ?thesis by blast
qed

lemma selectBy_locked:
  assumes "index s < length ps" "runTime s \<noteq> 0" "\<not> isDone (ps ! index s)"
  shows "selectBy better inc t ps s =
           Inr (int (index s), \<lparr>index = index s, runTime = runTime s + inc\<rparr>)"
proof -
  have nd: "\<not> allDone ps" using assms by (auto simp: allDone_nth)
  have "fold (\<lambda>x i. if startTime (ps ! x) \<le> t \<and> better x i \<and> \<not> isDone (ps ! x) \<and> runTime s = 0
                     then x else i) [0..<length ps] (index s) = index s"
    by (rule scan_noop) (simp add: assms)
  then show ?thesis
    using assms nd by (simp add: selectBy_def Let_def countDone_allDone firstReady_locked)
qed

lemma selectBy_no_candidate:
  assumes "index s < length ps" "\<forall>k<length ps. \<not> eligible t (ps ! k)"
  shows "selectBy better inc t ps s =
           Inr (if allDone ps then - 1 else int (index s),
                \<lparr>index = index s, runTime = (if isDone (ps ! index s) then 0 else runTime s) + inc\<rparr>)"
proof -
  let ?rt = "if isDone (ps ! index s) then 0 else runTime s"
  have "fold (\<lambda>x i. if startTime (ps ! x) \<le> t \<and> better x i \<and> \<not> isDone (ps ! x) \<and> ?rt = 0
                     then x else i) [0..<length ps] (index s) = index s"
    by (rule scan_noop) (use assms(2) in \<open>auto simp: eligible_def\<close>)
  then show ?thesis
    using assms by (simp add: selectBy_def Let_def countDone_allDone firstReady_none)
qed

lemma selectBy_decision:
  assumes "index s < length ps" "runTime s = 0 \<or> isDone (ps ! index s)"
    and "k < length ps" "eligible t (ps ! k)"
  shows "\<exists>j<length ps. eligible t (ps ! j) \<and>
           selectBy better inc t ps s = Inr (int j, \<lparr>index = j, runTime = inc\<rparr>)"
proof -
  have rt: "(if isDone (ps ! index s) then 0 else runTime s) = 0" using assms(2) by auto
  let ?c = "\<lambda>x i. startTime (ps ! x) \<le> t \<and> better x i \<and> \<not> isDone (ps ! x) \<and> (0::int) = 0"
  let ?i1 = "firstReady t ps 0 (index s)"
  let ?j = "fold (\<lambda>x i. if ?c x i then x else i) [0..<length ps] ?i1"
  have "?i1 < length ps \<and> eligible t (ps ! ?i1)"
    using firstReady_some [OF assms(3,4)] by blast
  then have "?j < length ps \<and> eligible t (ps ! ?j)"
    by (rule scan_inv) (simp add: eligible_def)
  moreover have "selectBy better inc t ps s = Inr (int ?j, \<lparr>index = ?j, runTime = inc\<rparr>)"
    using assms(1) rt eligible_not_allDone [OF assms(3,4)]
    by (simp add: selectBy_def Let_def countDone_allDone)
  ultimately show ?thesis by blast
qed

lemma selectBy_best:
  fixes key :: "nat \<Rightarrow> 'a::linorder"
  assumes "index s < length ps" "runTime s = 0 \<or> isDone (ps ! index s)"
    and "k < length ps" "eligible t (ps ! k)"
    and better: "\<And>x i. x < length ps \<Longrightarrow> i < length ps \<Longrightarrow> better x i \<longleftrightarrow> key x < key i"
  shows "\<exists>j<length ps. eligible t (ps ! j)
           \<and> (\<forall>k<length ps. eligible t (ps ! k) \<longrightarrow> key j \<le> key k)
           \<and> (\<forall>k<j. eligible t (ps ! k) \<longrightarrow> key j < key k)
           \<and> selectBy better inc t ps s = Inr (int j, \<lparr>index = j, runTime = inc\<rparr>)"
proof -
  have rt: "(if isDone (ps ! index s) then 0 else runTime s) = 0" using assms(2) by auto
  let ?c = "\<lambda>x i. startTime (ps ! x) \<le> t \<and> better x i \<and> \<not> isDone (ps ! x) \<and> (0::int) = 0"
  let ?i1 = "firstReady t ps 0 (index s)"
  let ?j = "fold (\<lambda>x i. if ?c x i then x else i) [0..<length ps] ?i1"
  have i1: "?i1 < length ps" "eligible t (ps ! ?i1)" "\<forall>j<?i1. \<not> eligible t (ps ! j)"
    using firstReady_some [OF assms(3,4)] by blast+
  have c: "\<And>x i. x < length ps \<Longrightarrow> i < length ps \<Longrightarrow>
      ?c x i \<longleftrightarrow> eligible t (ps ! x) \<and> key x < key i"
    by (auto simp: eligible_def better)
  have best: "eligible t (ps ! ?j)
       \<and> (\<forall>k<length ps. eligible t (ps ! k) \<longrightarrow> key ?j \<le> key k)
       \<and> (\<forall>k<?j. eligible t (ps ! k) \<longrightarrow> key ?j < key k)
       \<and> ?j < length ps"
    by (rule scan_best [where el = "\<lambda>x. eligible t (ps ! x)" and N = "length ps",
          OF c i1(2,3,1) order_refl])
  moreover have "selectBy better inc t ps s = Inr (int ?j, \<lparr>index = ?j, runTime = inc\<rparr>)"
    using assms(1) rt eligible_not_allDone [OF assms(3,4)]
    by (simp add: selectBy_def Let_def countDone_allDone)
  ultimately show ?thesis using best by blast
qed

lemma selectBy_sentinel:
  assumes "index s < length ps"
  shows "\<exists>d s'. selectBy better inc t ps s = Inr (d, s')
           \<and> (d = - 1 \<longleftrightarrow> allDone ps)
           \<and> (\<not> allDone ps \<longrightarrow> 0 \<le> d \<and> d < int (length ps))
           \<and> index s' < length ps"
proof -
  obtain j where "j < length ps"
    "selectBy better inc t ps s =
       Inr (if allDone ps then - 1 else int j,
            \<lparr>index = j, runTime = (if isDone (ps ! index s) then 0 else runTime s) + inc\<rparr>)"
    using selectBy_general [OF assms] by blast
  then show ?thesis by auto
qed

lemma selectBy_returns_index:
  assumes "index s < length ps" "0 \<le> runTime s"
    and "selectBy better 1 t ps s = Inr (int i, s')"
  shows "index s' = i \<and> 0 < runTime s' \<and> i < length ps"
proof -
  obtain j where j: "j < length ps"
    "selectBy better 1 t ps s =
       Inr (if allDone ps then - 1 else int j,
            \<lparr>index = j, runTime = (if isDone (ps ! index s) then 0 else runTime s) + 1\<rparr>)"
    using selectBy_general [OF assms(1)] by blast
  with assms(3) have "\<not> allDone ps" by (auto split: if_splits)
  with j assms show ?thesis by auto
qed

lemma answers_locked:
  assumes step: "\<And>t ps s. index s < length ps \<Longrightarrow> runTime s \<noteq> 0 \<Longrightarrow> \<not> isDone (ps ! index s) \<Longrightarrow>
      step t ps s = Inr (int (index s), \<lparr>index = index s, runTime = runTime s + 1\<rparr>)"
    and "0 < runTime s"
    and "\<forall>(t, ps)\<in>set calls. index s < length ps \<and> \<not> isDone (ps ! index s)"
  shows "answers step s calls =
           Inr (replicate (length calls) (int (index s)),
                \<lparr>index = index s, runTime = runTime s + int (length calls)\<rparr>)"
  using assms(2,3)
proof (induction calls arbitrary: s)
  case Nil
  then show ?case by simp
next
  case (Cons c calls)
  obtain t ps where c: "c = (t, ps)" by (cases c)
  let ?s' = "\<lparr>index = index s, runTime = runTime s + 1\<rparr>"
  have "step t ps s = Inr (int (index s), ?s')"
    using Cons.prems c by (intro step) auto
  moreover have "answers step ?s' calls =
      Inr (replicate (length calls) (int (index ?s')),
           \<lparr>index = index ?s', runTime = runTime ?s' + int (length calls)\<rparr>)"
    using Cons.prems by (intro Cons.IH) auto
  ultimately show ?case using c by (simp add: add.assoc)
qed

lemma SPN_locked:
  "index s < length ps \<Longrightarrow> runTime s \<noteq> 0 \<Longrightarrow> \<not> isDone (ps ! index s) \<Longrightarrow>
   ShortestProcessNext t ps s = Inr (int (index s), \<lparr>index = index s, runTime = runTime s + 1\<rparr>)"
  unfolding ShortestProcessNext_selectBy by (rule selectBy_locked)

lemma HRRN_locked:
  "index s < length ps \<Longrightarrow> runTime s \<noteq> 0 \<Longrightarrow> \<not> isDone (ps ! index s) \<Longrightarrow>
   HighestResponseRatioNext t ps s = Inr (int (index s), \<lparr>index = index s, runTime = runTime s + 1\<rparr>)"
  unfolding HighestResponseRatioNext_selectBy by (rule selectBy_locked)

lemma SRT_locked:
  "index s < length ps \<Longrightarrow> runTime s \<noteq> 0 \<Longrightarrow> \<not> isDone (ps ! index s) \<Longrightarrow>
   ShortestRemainingTime t ps q s = Inr (int (index s), \<lparr>index = index s, runTime = runTime s\<rparr>)"
  unfolding ShortestRemainingTime_selectBy using selectBy_locked [where inc = 0] by simp

lemma answers_after_selection:
  assumes step: "\<And>t ps s. index s < length ps \<Longrightarrow> runTime s \<noteq> 0 \<Longrightarrow> \<not> isDone (ps ! index s) \<Longrightarrow>
      step t ps s = Inr (int (index s), \<lparr>index = index s, runTime = runTime s + 1\<rparr>)"
    and "index s' = i" "0 < runTime s'"
    and "\<forall>(t, ps)\<in>set calls. i < length ps \<and> \<not> isDone (ps ! i)"
  shows "\<exists>s''. answers step s' calls = Inr (replicate (length calls) (int i), s'')"
  using answers_locked [of step s' calls, OF step] assms(2-4) by auto

lemma selectBy_machine:
  assumes "index s < length ps"
  shows "((runTime s = 0 \<or> isDone (ps ! index s)) \<and> (\<exists>k<length ps. eligible t (ps ! k))
            \<longrightarrow> (\<exists>j<length ps. eligible t (ps ! j)
                   \<and> selectBy better inc t ps s = Inr (int j, \<lparr>index = j, runTime = inc\<rparr>)))
       \<and> (runTime s \<noteq> 0 \<and> \<not> isDone (ps ! index s)
            \<longrightarrow> selectBy better inc t ps s
                  = Inr (int (index s), \<lparr>index = index s, runTime = runTime s + inc\<rparr>))
       \<and> (allDone ps \<longrightarrow> (\<exists>s'. selectBy better inc t ps s = Inr (- 1, s')))"
proof (intro conjI impI)
  assume "(runTime s = 0 \<or> isDone (ps ! index s)) \<and> (\<exists>k<length ps. eligible t (ps ! k))"
  then show "\<exists>j<length ps. eligible t (ps ! j)
      \<and> selectBy better inc t ps s = Inr (int j, \<lparr>index = j, runTime = inc\<rparr>)"
    using selectBy_decision [OF assms] by blast
next
  assume "runTime s \<noteq> 0 \<and> \<not> isDone (ps ! index s)"
  then show "selectBy better inc t ps s
      = Inr (int (index s), \<lparr>index = index s, runTime = runTime s + inc\<rparr>)"
    using selectBy_locked [OF assms] by blast
next
  assume "allDone ps"
  then show "\<exists>s'. selectBy better inc t ps s = Inr (- 1, s')"
    using selectBy_general [OF assms, of better inc t] by auto
qed

lemma selectBy_before_arrival:
  assumes "ps \<noteq> []" "\<forall>p\<in>set ps. t < startTime p" "\<not> allDone ps"
  shows "selectBy better 1 t ps initSel = Inr (0, \<lparr>index = 0, runTime = 1\<rparr>)"
proof -
  have "\<forall>k<length ps. \<not> eligible t (ps ! k)"
    using assms(2) by (auto simp: eligible_def not_le)
  moreover have "index initSel < length ps" using assms(1) by (simp add: initSel_def)
  ultimately show ?thesis
    using selectBy_no_candidate [of initSel ps t better 1] assms(3)
    by (simp add: initSel_def)
qed

lemma answers_index0:
  assumes step: "\<And>t ps s. index s < length ps \<Longrightarrow> runTime s \<noteq> 0 \<Longrightarrow> \<not> isDone (ps ! index s) \<Longrightarrow>
      step t ps s = Inr (int (index s), \<lparr>index = index s, runTime = runTime s + 1\<rparr>)"
    and "\<forall>(t, ps)\<in>set calls. ps \<noteq> [] \<and> \<not> isDone (ps ! 0)"
  shows "answers step \<lparr>index = 0, runTime = 1\<rparr> calls =
           Inr (replicate (length calls) 0, \<lparr>index = 0, runTime = 1 + int (length calls)\<rparr>)"
  using answers_locked [of step "\<lparr>index = 0, runTime = 1\<rparr>" calls, OF step] assms(2)
  by auto

lemma length_applyDecision: "length (applyDecision d ps) = length ps"
  by (simp add: applyDecision_def Let_def)

section \<open>Single precision: a divisor that is not zero stays so\<close>

lemma bitLength_pos: "0 < n \<Longrightarrow> 0 < bitLength n"
  by (subst bitLength.simps) simp

lemma bitLength_lower: "0 < n \<Longrightarrow> 2 ^ (bitLength n - 1) \<le> n"
proof (induction n rule: bitLength.induct)
  case (1 n)
  show ?case
  proof (cases "0 < n div 2")
    case True
    then have "2 ^ (bitLength (n div 2) - 1) \<le> n div 2" using 1 by simp
    moreover have "bitLength n - 1 = Suc (bitLength (n div 2) - 1)"
      using 1(2) bitLength_pos [OF True] by (subst bitLength.simps) simp
    ultimately show ?thesis by simp
  next
    case False
    then have "n = 1" using 1(2) by simp
    then show ?thesis by (simp add: bitLength.simps)
  qed
qed

lemma roundDiv_ge: "0 < b \<Longrightarrow> a div b \<le> roundDiv a b"
  by (simp add: roundDiv_def Let_def)

lemma floatOfInt_eq_0_iff: "floatOfInt n = 0 \<longleftrightarrow> n = 0"
proof (cases "\<bar>n\<bar> < 2 ^ 24")
  case True
  then show ?thesis by (simp add: floatOfInt_def)
next
  case False
  let ?a = "\<bar>n\<bar>" and ?u = "(2::int) ^ (bitLength \<bar>n\<bar> - 24)"
  have a: "0 < ?a" using False by simp
  have "?u \<le> 2 ^ (bitLength ?a - 1)"
    by (rule power_increasing) simp_all
  also have "\<dots> \<le> ?a" by (rule bitLength_lower [OF a])
  finally have "?u \<le> ?a" .
  then have "0 < ?a div ?u"
    by (simp add: pos_imp_zdiv_pos_iff)
  also have "?a div ?u \<le> roundDiv ?a ?u" by (rule roundDiv_ge) simp
  finally have "roundDiv ?a ?u \<noteq> 0" by simp
  moreover have "n \<noteq> 0" using False by auto
  ultimately show ?thesis using False by (simp add: floatOfInt_def sgn_eq_0_iff)
qed

lemma wrap32_inRange: "inRange32 x \<Longrightarrow> wrap32 x = x"
  by (simp add: wrap32_def inRange32_def)

lemma responseRatio_no_overflow:
  assumes "noOverflow t p"
  shows "responseRatio t p =
           floatDiv (floatOfInt (floatOfInt (t - startTime p - timeScheduled p)
                                 + floatOfInt (totalTimeNeeded p)))
                    (floatOfInt (totalTimeNeeded p))"
  using assms by (simp add: responseRatio_def noOverflow_def wrap32_inRange Let_def)

lemma responseRatio_Fin:
  "totalTimeNeeded p \<noteq> 0 \<Longrightarrow> \<exists>q. responseRatio t p = Fin q"
  by (simp add: responseRatio_def floatDiv_def Let_def floatOfInt_eq_0_iff)

section \<open>Runs under the driver\<close>

lemma remaining_nonneg: "wellFormed ps \<Longrightarrow> 0 \<le> remaining ps"
  unfolding remaining_def wellFormed_def
  by (intro sum_list_nonneg) (auto simp: list_all_iff)

lemma applyDecision_startTime:
  "k < length ps \<Longrightarrow> startTime (applyDecision d ps ! k) = startTime (ps ! k)"
  by (auto simp: applyDecision_def Let_def nth_list_update)

lemma sum_list_map_update:
  fixes f :: "'a \<Rightarrow> int"
  shows "j < length xs \<Longrightarrow> sum_list (map f (xs[j := y])) = sum_list (map f xs) + f y - f (xs ! j)"
  by (induction xs arbitrary: j) (auto split: nat.split)

lemma remaining_update:
  assumes "j < length ps"
  shows "remaining (ps[j := q]) = remaining ps
           + (if isDone q then 0 else totalTimeNeeded q - timeScheduled q)
           - (if isDone (ps ! j) then 0 else totalTimeNeeded (ps ! j) - timeScheduled (ps ! j))"
  unfolding remaining_def by (rule sum_list_map_update [OF assms])

lemma wellFormed_update:
  assumes "wellFormed ps" "isDone q \<or> timeScheduled q < totalTimeNeeded q"
  shows "wellFormed (ps[j := q])"
  unfolding wellFormed_def list_all_length
proof (intro allI impI)
  fix n assume n: "n < length (ps[j := q])"
  show "isDone (ps[j := q] ! n) \<or> timeScheduled (ps[j := q] ! n) < totalTimeNeeded (ps[j := q] ! n)"
  proof (cases "n = j")
    case True
    then show ?thesis using n assms(2) by simp
  next
    case False
    then show ?thesis using n assms(1) by (simp add: wellFormed_def list_all_length)
  qed
qed

lemma applyDecision_update:
  assumes "j < length ps"
  shows "applyDecision (int j) ps =
     ps[j := (if timeScheduled (ps ! j) + 1 = totalTimeNeeded (ps ! j)
              then (ps ! j)\<lparr>timeScheduled := timeScheduled (ps ! j) + 1, isDone := True\<rparr>
              else (ps ! j)\<lparr>timeScheduled := timeScheduled (ps ! j) + 1\<rparr>)]"
  using assms by (simp add: applyDecision_def Let_def)

lemma applyDecision_run:
  assumes "j < length ps" "\<not> isDone (ps ! j)" "wellFormed ps"
  shows "remaining (applyDecision (int j) ps) = remaining ps - 1"
    and "wellFormed (applyDecision (int j) ps)"
proof -
  have lt: "timeScheduled (ps ! j) < totalTimeNeeded (ps ! j)"
    using assms by (auto simp: wellFormed_def list_all_length)
  show "remaining (applyDecision (int j) ps) = remaining ps - 1"
    unfolding applyDecision_update [OF assms(1)] remaining_update [OF assms(1)]
    using assms(2) by simp
  show "wellFormed (applyDecision (int j) ps)"
    unfolding applyDecision_update [OF assms(1)]
    using lt by (intro wellFormed_update assms(3)) simp
qed

lemma applyDecision_stale:
  assumes "j < length ps" "isDone (ps ! j)" "wellFormed ps"
  shows "remaining (applyDecision (int j) ps) = remaining ps"
    and "wellFormed (applyDecision (int j) ps)"
    and "allDone (applyDecision (int j) ps) = allDone ps"
proof -
  show "remaining (applyDecision (int j) ps) = remaining ps"
    unfolding applyDecision_update [OF assms(1)] remaining_update [OF assms(1)]
    using assms(2) by simp
  show "wellFormed (applyDecision (int j) ps)"
    unfolding applyDecision_update [OF assms(1)]
    using assms(2) by (intro wellFormed_update assms(3)) simp
  show "allDone (applyDecision (int j) ps) = allDone ps"
    unfolding applyDecision_update [OF assms(1)] allDone_nth
    using assms(1,2) by (auto simp: nth_list_update)
qed

lemma remaining_zero_allDone:
  assumes "wellFormed ps" "remaining ps \<le> 0"
  shows "allDone ps"
proof (rule ccontr)
  assume "\<not> allDone ps"
  then obtain k where k: "k < length ps" "\<not> isDone (ps ! k)" by (auto simp: allDone_nth)
  define f where "f p = (if isDone p then 0 else totalTimeNeeded p - timeScheduled p)"
    for p :: Process
  have pos: "0 < f (ps ! k)"
    using k assms(1) by (auto simp: f_def wellFormed_def list_all_length)
  have nn: "\<forall>x\<in>set (map f ps). 0 \<le> x"
    using assms(1) by (auto simp: f_def wellFormed_def list_all_iff)
  have "f (ps ! k) \<in> set (map f ps)" using k(1) by simp
  then have "f (ps ! k) \<le> sum_list (map f ps)"
    using nn by (intro member_le_sum_list) auto
  moreover have "remaining ps = sum_list (map f ps)"
    unfolding remaining_def f_def ..
  ultimately show False using pos assms(2) by simp
qed

lemma simulate_Suc_Inr:
  assumes "step t ps s = Inr (d, s1)"
    and "simulate step n (t + 1) (applyDecision d ps) s1 = Inr (ds, ps', s')"
  shows "simulate step (Suc n) t ps s = Inr (d # ds, ps', s')"
  using assms by simp

lemma allDone_remaining: "allDone ps \<Longrightarrow> remaining ps = 0"
  unfolding allDone_def remaining_def list_all_iff
  by (induction ps) auto

lemma selectBy_progress:
  assumes "index s < length ps" "\<not> allDone ps"
  shows "\<exists>j<length ps. \<exists>s'. selectBy better inc t ps s = Inr (int j, s') \<and> index s' = j
           \<and> (isDone (ps ! j) \<longrightarrow> (\<forall>k<length ps. \<not> eligible t (ps ! k)))"
proof (cases "\<exists>k<length ps. eligible t (ps ! k)")
  case False
  then have "selectBy better inc t ps s =
      Inr (int (index s),
           \<lparr>index = index s, runTime = (if isDone (ps ! index s) then 0 else runTime s) + inc\<rparr>)"
    using selectBy_no_candidate [OF assms(1), of t better inc] assms(2) by simp
  then show ?thesis using assms(1) False by auto
next
  case True
  then obtain k where k: "k < length ps" "eligible t (ps ! k)" by blast
  show ?thesis
  proof (cases "runTime s = 0 \<or> isDone (ps ! index s)")
    case True
    then obtain j where "j < length ps" "eligible t (ps ! j)"
        "selectBy better inc t ps s = Inr (int j, \<lparr>index = j, runTime = inc\<rparr>)"
      using selectBy_decision [OF assms(1) _ k] by blast
    then show ?thesis by (auto simp: eligible_def)
  next
    case False
    then have "selectBy better inc t ps s =
        Inr (int (index s), \<lparr>index = index s, runTime = runTime s + inc\<rparr>)"
      using selectBy_locked [OF assms(1)] by simp
    then show ?thesis using assms(1) False by auto
  qed
qed

lemma run_until_allDone:
  assumes step: "\<And>t ps s. index s < length ps \<Longrightarrow> \<not> allDone ps \<Longrightarrow>
      \<exists>j<length ps. \<exists>s'. step t ps s = Inr (int j, s') \<and> index s' = j
        \<and> (isDone (ps ! j) \<longrightarrow> (\<forall>k<length ps. \<not> eligible t (ps ! k)))"
    and "index s < length ps" "wellFormed ps" "\<forall>k<length ps. startTime (ps ! k) \<le> M"
  shows "\<exists>n ds ps' s'. simulate step n t ps s = Inr (ds, ps', s') \<and> allDone ps'
           \<and> - 1 \<notin> set ds \<and> index s' < length ps' \<and> length ps' = length ps"
  using assms(2-4)
proof (induction "nat (remaining ps) + nat (M - t)" arbitrary: ps t s rule: less_induct)
  case less
  show ?case
  proof (cases "allDone ps")
    case True
    have "simulate step 0 t ps s = Inr ([], ps, s)" by simp
    then show ?thesis using True less.prems(1) by fastforce
  next
    case False
    obtain j s1 where j: "j < length ps" "step t ps s = Inr (int j, s1)" "index s1 = j"
        "isDone (ps ! j) \<longrightarrow> (\<forall>k<length ps. \<not> eligible t (ps ! k))"
      using step [OF less.prems(1) False] by blast
    let ?ps = "applyDecision (int j) ps"
    have len: "length ?ps = length ps" by (rule length_applyDecision)
    have M: "\<forall>k<length ?ps. startTime (?ps ! k) \<le> M"
      using less.prems(3) by (simp add: len applyDecision_startTime)
    have wf: "wellFormed ?ps"
      using applyDecision_run(2) [OF j(1) _ less.prems(2)]
        applyDecision_stale(2) [OF j(1) _ less.prems(2)] by blast
    have dec: "nat (remaining ?ps) + nat (M - (t + 1)) < nat (remaining ps) + nat (M - t)"
    proof (cases "isDone (ps ! j)")
      case True
      obtain k where k: "k < length ps" "\<not> isDone (ps ! k)"
        using False by (auto simp: allDone_nth)
      then have "t < startTime (ps ! k)"
        using j(4) True by (auto simp: eligible_def)
      then have "t < M" using less.prems(3) k(1) by fastforce
      then show ?thesis using applyDecision_stale(1) [OF j(1) True less.prems(2)] by simp
    next
      case nd: False
      have "remaining ps \<noteq> 0"
        using remaining_zero_allDone [OF less.prems(2)] False by auto
      then have "0 < remaining ps" using remaining_nonneg [OF less.prems(2)] by simp
      then show ?thesis using applyDecision_run(1) [OF j(1) nd less.prems(2)] by simp
    qed
    obtain n ds ps' s' where r: "simulate step n (t + 1) ?ps s1 = Inr (ds, ps', s')"
        "allDone ps'" "- 1 \<notin> set ds" "index s' < length ps'" "length ps' = length ?ps"
      using less.hyps [OF dec _ wf M, of s1] j(1,3) len by auto
    have "simulate step (Suc n) t ps s = Inr (int j # ds, ps', s')"
      using j(2) r(1) by (rule simulate_Suc_Inr)
    moreover have "- 1 \<notin> set (int j # ds)" using r(3) by simp
    ultimately show ?thesis using r(2,4,5) len by metis
  qed
qed

lemma run_conserves:
  assumes step: "\<And>t ps s. index s < length ps \<Longrightarrow> \<not> allDone ps \<Longrightarrow>
      \<exists>j<length ps. \<exists>s'. step t ps s = Inr (int j, s') \<and> index s' = j
        \<and> (isDone (ps ! j) \<longrightarrow> (\<forall>k<length ps. \<not> eligible t (ps ! k)))"
    and "index s < length ps" "wellFormed ps" "\<forall>k<length ps. startTime (ps ! k) \<le> t"
  shows "\<exists>ds ps' s'. simulate step (nat (remaining ps)) t ps s = Inr (ds, ps', s')
           \<and> allDone ps' \<and> - 1 \<notin> set ds \<and> length ds = nat (remaining ps)
           \<and> index s' < length ps' \<and> length ps' = length ps"
  using assms(2-4)
proof (induction "nat (remaining ps)" arbitrary: ps t s)
  case 0
  then have "remaining ps \<le> 0" by simp
  then have "allDone ps" using remaining_zero_allDone "0.prems"(2) by blast
  moreover have "simulate step (nat (remaining ps)) t ps s = Inr ([], ps, s)"
    using 0(1) [symmetric] by simp
  ultimately show ?case using "0.prems"(1) 0(1) [symmetric] by simp
next
  case (Suc m)
  then have pos: "0 < remaining ps" by linarith
  then have nd: "\<not> allDone ps" using allDone_remaining by fastforce
  obtain j s1 where j: "j < length ps" "step t ps s = Inr (int j, s1)" "index s1 = j"
      "isDone (ps ! j) \<longrightarrow> (\<forall>k<length ps. \<not> eligible t (ps ! k))"
    using step [OF Suc.prems(1) nd] by blast
  obtain k where k: "k < length ps" "\<not> isDone (ps ! k)"
    using nd by (auto simp: allDone_nth)
  then have "eligible t (ps ! k)" using Suc.prems(3) by (simp add: eligible_def)
  then have run: "\<not> isDone (ps ! j)" using j(4) k(1) by blast
  let ?ps = "applyDecision (int j) ps"
  have len: "length ?ps = length ps" by (rule length_applyDecision)
  have rem: "remaining ?ps = remaining ps - 1" and wf: "wellFormed ?ps"
    using applyDecision_run [OF j(1) run Suc.prems(2)] by auto
  have m: "m = nat (remaining ?ps)" using Suc(2) rem by simp
  have arrived: "\<forall>k<length ?ps. startTime (?ps ! k) \<le> t + 1"
    using Suc.prems(3) by (auto simp: len applyDecision_startTime intro: order_trans)
  obtain ds ps' s' where r: "simulate step (nat (remaining ?ps)) (t + 1) ?ps s1 = Inr (ds, ps', s')"
      "allDone ps'" "- 1 \<notin> set ds" "length ds = nat (remaining ?ps)"
      "index s' < length ps'" "length ps' = length ?ps"
    using Suc(1) [OF m _ wf arrived, of s1] j(1,3) len by auto
  have n: "nat (remaining ps) = Suc (nat (remaining ?ps))" using Suc(2) m by simp
  have "simulate step (Suc (nat (remaining ?ps))) t ps s = Inr (int j # ds, ps', s')"
    using j(2) r(1) by (rule simulate_Suc_Inr)
  then show ?case unfolding n using r(2-6) len by simp
qed

lemma fresh_wellFormed: "fresh ps \<Longrightarrow> wellFormed ps"
  by (auto simp: fresh_def wellFormed_def list_all_iff)

lemma fresh_remaining: "fresh ps \<Longrightarrow> remaining ps = sum_list (map totalTimeNeeded ps)"
  unfolding fresh_def remaining_def list_all_iff
  by (induction ps) auto

lemma startTime_bounded: "\<exists>M. \<forall>k<length ps. startTime (ps ! k) \<le> M"
proof (induction ps)
  case Nil
  then show ?case by simp
next
  case (Cons p ps)
  then obtain M where M: "\<forall>k<length ps. startTime (ps ! k) \<le> M" by blast
  have "\<forall>k<length (p # ps). startTime ((p # ps) ! k) \<le> max M (startTime p)"
    using M by (auto simp: nth_Cons split: nat.split intro: max.coboundedI1)
  then show ?case by blast
qed

lemma SPN_progress:
  "index s < length ps \<Longrightarrow> \<not> allDone ps \<Longrightarrow>
     \<exists>j<length ps. \<exists>s'. ShortestProcessNext t ps s = Inr (int j, s') \<and> index s' = j
       \<and> (isDone (ps ! j) \<longrightarrow> (\<forall>k<length ps. \<not> eligible t (ps ! k)))"
  unfolding ShortestProcessNext_selectBy by (rule selectBy_progress)

lemma SRT_progress:
  "index s < length ps \<Longrightarrow> \<not> allDone ps \<Longrightarrow>
     \<exists>j<length ps. \<exists>s'. ShortestRemainingTime t ps q s = Inr (int j, s') \<and> index s' = j
       \<and> (isDone (ps ! j) \<longrightarrow> (\<forall>k<length ps. \<not> eligible t (ps ! k)))"
  unfolding ShortestRemainingTime_selectBy by (rule selectBy_progress)

lemma HRRN_progress:
  "index s < length ps \<Longrightarrow> \<not> allDone ps \<Longrightarrow>
     \<exists>j<length ps. \<exists>s'. HighestResponseRatioNext t ps s = Inr (int j, s') \<and> index s' = j
       \<and> (isDone (ps ! j) \<longrightarrow> (\<forall>k<length ps. \<not> eligible t (ps ! k)))"
  unfolding HighestResponseRatioNext_selectBy by (rule selectBy_progress)

lemma selectBy_allDone:
  "index s < length ps \<Longrightarrow> allDone ps \<Longrightarrow> \<exists>s'. selectBy better inc t ps s = Inr (- 1, s')"
  using selectBy_general [of s ps better inc t] by auto

lemma SPN_allDone:
  "index s < length ps \<Longrightarrow> allDone ps \<Longrightarrow> \<exists>s'. ShortestProcessNext t ps s = Inr (- 1, s')"
  unfolding ShortestProcessNext_selectBy by (rule selectBy_allDone)

lemma SRT_allDone:
  "index s < length ps \<Longrightarrow> allDone ps \<Longrightarrow> \<exists>s'. ShortestRemainingTime t ps q s = Inr (- 1, s')"
  unfolding ShortestRemainingTime_selectBy by (rule selectBy_allDone)

lemma HRRN_allDone:
  "index s < length ps \<Longrightarrow> allDone ps \<Longrightarrow> \<exists>s'. HighestResponseRatioNext t ps s = Inr (- 1, s')"
  unfolding HighestResponseRatioNext_selectBy by (rule selectBy_allDone)

lemma run_reaches_sentinel:
  assumes step: "\<And>t ps s. index s < length ps \<Longrightarrow> \<not> allDone ps \<Longrightarrow>
      \<exists>j<length ps. \<exists>s'. step t ps s = Inr (int j, s') \<and> index s' = j
        \<and> (isDone (ps ! j) \<longrightarrow> (\<forall>k<length ps. \<not> eligible t (ps ! k)))"
    and last: "\<And>t ps s. index s < length ps \<Longrightarrow> allDone ps \<Longrightarrow> \<exists>s'. step t ps s = Inr (- 1, s')"
    and "procList \<noteq> []" "wellFormed procList"
  shows "\<exists>n ds ps' s'. simulate step n t procList initSel = Inr (ds, ps', s')
           \<and> - 1 \<notin> set ds \<and> allDone ps' \<and> (\<forall>t'. \<exists>s''. step t' ps' s' = Inr (- 1, s''))"
proof -
  have i: "index initSel < length procList" using assms(3) by (simp add: initSel_def)
  obtain M where M: "\<forall>k<length procList. startTime (procList ! k) \<le> M"
    using startTime_bounded by blast
  obtain n ds ps' s' where r: "simulate step n t procList initSel = Inr (ds, ps', s')"
      "allDone ps'" "- 1 \<notin> set ds" "index s' < length ps'"
    using run_until_allDone [of step, OF step i assms(4) M, of t] by blast
  have "\<forall>t'. \<exists>s''. step t' ps' s' = Inr (- 1, s'')"
    using last [OF r(4,2)] by blast
  with r(1-3) show ?thesis by blast
qed

lemma run_conserves_fresh:
  assumes step: "\<And>t ps s. index s < length ps \<Longrightarrow> \<not> allDone ps \<Longrightarrow>
      \<exists>j<length ps. \<exists>s'. step t ps s = Inr (int j, s') \<and> index s' = j
        \<and> (isDone (ps ! j) \<longrightarrow> (\<forall>k<length ps. \<not> eligible t (ps ! k)))"
    and "procList \<noteq> []" "fresh procList" "\<forall>k<length procList. startTime (procList ! k) \<le> t"
  shows "\<exists>ds ps' s'. simulate step (nat (sum_list (map totalTimeNeeded procList)))
               t procList initSel = Inr (ds, ps', s')
           \<and> - 1 \<notin> set ds \<and> int (length ds) = sum_list (map totalTimeNeeded procList)
           \<and> allDone ps'"
proof -
  have i: "index initSel < length procList" using assms(2) by (simp add: initSel_def)
  note wf = fresh_wellFormed [OF assms(3)]
  have rem: "remaining procList = sum_list (map totalTimeNeeded procList)"
    by (rule fresh_remaining [OF assms(3)])
  have nn: "0 \<le> remaining procList" by (rule remaining_nonneg [OF wf])
  obtain ds ps' s' where r: "simulate step (nat (remaining procList)) t procList initSel
        = Inr (ds, ps', s')" "allDone ps'" "- 1 \<notin> set ds" "length ds = nat (remaining procList)"
    using run_conserves [of step, OF step i wf assms(4)] by blast
  have "int (length ds) = remaining procList" using r(4) nn by simp
  with r(1-3) show ?thesis unfolding rem by blast
qed

lemma admit_none:
  assumes "\<forall>k<length ps. startTime (ps ! k) \<noteq> t"
  shows "admit t ps r = r"
proof -
  have "fold (\<lambda>i r. if startTime (ps ! i) = t then r @ [i] else r) [0..<n] r = r"
    if "n \<le> length ps" for n
    using that assms by (induction n) auto
  then show ?thesis by (simp add: admit_def)
qed

lemma admit_all:
  assumes "\<forall>k<length ps. startTime (ps ! k) = t"
  shows "admit t ps r = r @ [0..<length ps]"
proof -
  have "fold (\<lambda>i r. if startTime (ps ! i) = t then r @ [i] else r) [0..<n] r = r @ [0..<n]"
    if "n \<le> length ps" for n
    using that assms by (induction n) auto
  then show ?thesis by (simp add: admit_def)
qed

lemma queueOk_fresh:
  assumes "ps \<noteq> []" "fresh ps"
  shows "queueOk ps [0..<length ps]"
proof -
  have "\<forall>i<length ps. \<not> isDone (ps ! i)"
    using assms(2) by (simp add: fresh_def list_all_length)
  then show ?thesis
    using assms(1) by (simp add: queueOk_def list_all_iff tl_upt)
qed

lemma RoundRobin_runs_head:
  assumes "queueOk ps (admit t ps (ready s))" "\<not> allDone ps"
  shows "\<exists>j<length ps. \<exists>s'. RoundRobin t ps q s = Inr (int j, s') \<and> \<not> isDone (ps ! j)
           \<and> queueOk (applyDecision (int j) ps) (ready s')"
proof -
  let ?r1 = "admit t ps (ready s)"
  obtain h r where r1: "?r1 = h # r" using assms(1) by (cases ?r1) (auto simp: queueOk_def)
  have q: "distinct (h # r)" "h < length ps" "\<forall>i\<in>set r. i < length ps"
      "\<forall>i<length ps. isDone (ps ! i) \<or> i = h \<or> i \<in> set r" "\<forall>i\<in>set r. \<not> isDone (ps ! i)"
    using assms(1) unfolding r1 queueOk_def list_all_iff by auto
  have hd: "headIsDone ps (h # r) = Inr (isDone (ps ! h))"
    using q(2) by (simp add: headIsDone_def)
  define r' where "r' = (if timeToNextSched s = 0 \<or> isDone (ps ! h)
                         then (if isDone (ps ! h) then r else r @ [h]) else h # r)"
  define t' where "t' = (if timeToNextSched s = 0 \<or> isDone (ps ! h)
                         then q else timeToNextSched s)"
  have call: "RoundRobin t ps q s = Inr (rrDecide t' r')"
    by (simp add: RoundRobin_def Let_def r1 hd r'_def t'_def)
  have ne: "r' \<noteq> []"
  proof
    assume "r' = []"
    then have "isDone (ps ! h)" "r = []" by (auto simp: r'_def split: if_splits)
    then have "allDone ps" using q(4) by (auto simp: allDone_nth)
    then show False using assms(2) by simp
  qed
  have r': "distinct r'" "\<forall>i\<in>set r'. i < length ps \<and> \<not> isDone (ps ! i)"
      "\<forall>i<length ps. isDone (ps ! i) \<or> i \<in> set r'"
    using q by (auto simp: r'_def)
  obtain j rest where jr: "r' = j # rest" using ne by (cases r') auto
  have j: "j < length ps" "\<not> isDone (ps ! j)" using r'(2) jr by auto
  let ?ps = "applyDecision (int j) ps"
  have same: "isDone (?ps ! i) = isDone (ps ! i)" if "i < length ps" "i \<noteq> j" for i
    using that j(1) by (simp add: applyDecision_update)
  have to_done: "isDone (ps ! i) \<longrightarrow> isDone (?ps ! i)" if "i < length ps" for i
    using that j(1) by (cases "i = j") (auto simp: applyDecision_update)
  have "queueOk ?ps (j # rest)"
    unfolding queueOk_def list_all_iff length_applyDecision
  proof (intro conjI ballI)
    show "distinct (j # rest)" using r'(1) jr by simp
    show "j # rest \<noteq> []" by simp
    show "i < length ps" if "i \<in> set (j # rest)" for i using that r'(2) jr by auto
    show "isDone (?ps ! i) \<or> i \<in> set (j # rest)" if "i \<in> set [0..<length ps]" for i
      using that r'(3) jr to_done [of i] by auto
    show "\<not> isDone (?ps ! i)" if "i \<in> set (tl (j # rest))" for i
    proof -
      have "i \<in> set rest" using that by simp
      then have "i \<noteq> j" "i < length ps" "\<not> isDone (ps ! i)" using r' jr by auto
      then show ?thesis using same by simp
    qed
  qed
  moreover have "rrDecide t' r' = (int j, \<lparr>timeToNextSched = t' - 1, ready = j # rest\<rparr>)"
    by (simp add: rrDecide_def jr)
  ultimately show ?thesis using call j by auto
qed

lemma RoundRobin_run:
  assumes "queueOk ps (admit t ps (ready s))" "wellFormed ps"
    and "\<forall>k<length ps. startTime (ps ! k) \<le> t"
  shows "\<exists>ds ps' s'. simulate (\<lambda>t ps. RoundRobin t ps q) (nat (remaining ps)) t ps s
             = Inr (ds, ps', s')
           \<and> allDone ps' \<and> - 1 \<notin> set ds \<and> length ds = nat (remaining ps)"
  using assms
proof (induction "nat (remaining ps)" arbitrary: ps t s)
  case 0
  then have "remaining ps \<le> 0" by simp
  then have "allDone ps" using remaining_zero_allDone "0.prems"(2) by blast
  moreover have "simulate (\<lambda>t ps. RoundRobin t ps q) (nat (remaining ps)) t ps s = Inr ([], ps, s)"
    using 0(1) [symmetric] by simp
  ultimately show ?case using 0(1) [symmetric] by simp
next
  case (Suc m)
  then have pos: "0 < remaining ps" by linarith
  then have nd: "\<not> allDone ps" using allDone_remaining by fastforce
  obtain j s1 where j: "j < length ps" "RoundRobin t ps q s = Inr (int j, s1)"
      "\<not> isDone (ps ! j)" "queueOk (applyDecision (int j) ps) (ready s1)"
    using RoundRobin_runs_head [OF Suc.prems(1) nd] by blast
  let ?ps = "applyDecision (int j) ps"
  have len: "length ?ps = length ps" by (rule length_applyDecision)
  have rem: "remaining ?ps = remaining ps - 1" and wf: "wellFormed ?ps"
    using applyDecision_run [OF j(1,3) Suc.prems(2)] by auto
  have m: "m = nat (remaining ?ps)" using Suc(2) rem by simp
  have arrived: "\<forall>k<length ?ps. startTime (?ps ! k) \<le> t + 1"
    using Suc.prems(3) by (auto simp: len applyDecision_startTime intro: order_trans)
  have "\<forall>k<length ?ps. startTime (?ps ! k) \<noteq> t + 1"
    using Suc.prems(3) by (auto simp: len applyDecision_startTime)
  then have "admit (t + 1) ?ps (ready s1) = ready s1" by (rule admit_none)
  then have ok: "queueOk ?ps (admit (t + 1) ?ps (ready s1))" using j(4) by simp
  obtain ds ps' s' where r:
      "simulate (\<lambda>t ps. RoundRobin t ps q) (nat (remaining ?ps)) (t + 1) ?ps s1 = Inr (ds, ps', s')"
      "allDone ps'" "- 1 \<notin> set ds" "length ds = nat (remaining ?ps)"
    using Suc(1) [OF m ok wf arrived] by blast
  have n: "nat (remaining ps) = Suc (nat (remaining ?ps))" using Suc(2) m by simp
  have "simulate (\<lambda>t ps. RoundRobin t ps q) (Suc (nat (remaining ?ps))) t ps s
      = Inr (int j # ds, ps', s')"
    using j(2) r(1) by (rule simulate_Suc_Inr)
  then show ?case unfolding n using r(2-4) by simp
qed

section \<open>The claims\<close>

subsection \<open>C1: non-preemption\<close>

text \<open>
  Claim C1 states the non-preemption law for Shortest Process Next, Shortest Remaining Time
  and Highest Response Ratio Next, and that Shortest Remaining Time re-evaluates its
  selection only when the selected process completes. The source contradicts the part on
  Shortest Remaining Time: at tick 1 of \<^const>\<open>shortLateRoster\<close> process 0 is selected and
  not done, and the call returns process 1.
\<close>

theorem ShortestRemainingTime_preempts:
  "ShortestRemainingTime 0 shortLateRoster 2 initSel = Inr (0, \<lparr>index = 0, runTime = 0\<rparr>)
   \<and> \<not> isDone (applyDecision 0 shortLateRoster ! 0)
   \<and> ShortestRemainingTime 1 (applyDecision 0 shortLateRoster) 2 \<lparr>index = 0, runTime = 0\<rparr>
       = Inr (1, \<lparr>index = 1, runTime = 0\<rparr>)"
  by code_simp

text \<open>
  C1 as amended. For Shortest Process Next and Highest Response Ratio Next, from a state
  with the index inside the roster and a run length that is not negative: once a call has
  returned a process index, every later call returns that index, whatever the tick and the
  roster of the call, as long as that process is in the roster and not done. Shortest
  Remaining Time does not increment its run length: with run length 0 and an eligible
  process in the roster, its decision is the same from every selected index, so every call
  re-evaluates the selection.
\<close>

theorem non_preemption_law:
  assumes "index s < length procList" "0 \<le> runTime s"
  shows "(\<forall>i s' calls. ShortestProcessNext curTime procList s = Inr (int i, s')
            \<longrightarrow> (\<forall>(t, ps)\<in>set calls. i < length ps \<and> \<not> isDone (ps ! i))
            \<longrightarrow> (\<exists>s''. answers ShortestProcessNext s' calls
                          = Inr (replicate (length calls) (int i), s'')))
       \<and> (\<forall>i s' calls. HighestResponseRatioNext curTime procList s = Inr (int i, s')
            \<longrightarrow> (\<forall>(t, ps)\<in>set calls. i < length ps \<and> \<not> isDone (ps ! i))
            \<longrightarrow> (\<exists>s''. answers HighestResponseRatioNext s' calls
                          = Inr (replicate (length calls) (int i), s'')))
       \<and> (runTime s = 0 \<longrightarrow> (\<exists>k<length procList. eligible curTime (procList ! k))
            \<longrightarrow> (\<exists>j<length procList.
                   \<forall>s2. runTime s2 = 0 \<and> index s2 < length procList
                     \<longrightarrow> ShortestRemainingTime curTime procList timeQuantum s2
                           = Inr (int j, \<lparr>index = j, runTime = 0\<rparr>)))"
proof (intro conjI allI impI)
  fix i s' and calls :: "(int \<times> Process list) list"
  assume r: "ShortestProcessNext curTime procList s = Inr (int i, s')"
    and c: "\<forall>(t, ps)\<in>set calls. i < length ps \<and> \<not> isDone (ps ! i)"
  have "index s' = i \<and> 0 < runTime s' \<and> i < length procList"
    using r assms unfolding ShortestProcessNext_selectBy by (rule selectBy_returns_index [rotated 2])
  then show "\<exists>s''. answers ShortestProcessNext s' calls = Inr (replicate (length calls) (int i), s'')"
    using c by (intro answers_after_selection SPN_locked) auto
next
  fix i s' and calls :: "(int \<times> Process list) list"
  assume r: "HighestResponseRatioNext curTime procList s = Inr (int i, s')"
    and c: "\<forall>(t, ps)\<in>set calls. i < length ps \<and> \<not> isDone (ps ! i)"
  have "index s' = i \<and> 0 < runTime s' \<and> i < length procList"
    using r assms unfolding HighestResponseRatioNext_selectBy
    by (rule selectBy_returns_index [rotated 2])
  then show "\<exists>s''. answers HighestResponseRatioNext s' calls
               = Inr (replicate (length calls) (int i), s'')"
    using c by (intro answers_after_selection HRRN_locked) auto
next
  assume rt: "runTime s = 0" and ex: "\<exists>k<length procList. eligible curTime (procList ! k)"
  then obtain k where k: "k < length procList" "eligible curTime (procList ! k)" by blast
  let ?b = "\<lambda>x i. floatOfInt (totalTimeNeeded (procList ! x) - timeScheduled (procList ! x))
                 < floatOfInt (totalTimeNeeded (procList ! i) - timeScheduled (procList ! i))"
  let ?j = "fold (\<lambda>x i. if startTime (procList ! x) \<le> curTime \<and> ?b x i
                          \<and> \<not> isDone (procList ! x) \<and> (0::int) = 0 then x else i)
              [0..<length procList] (firstReady curTime procList 0 0)"
  have "firstReady curTime procList 0 0 < length procList"
    using firstReady_some [OF k] by blast
  then have j: "?j < length procList" by (rule scan_inv) simp
  have fr: "firstReady curTime procList 0 idx = firstReady curTime procList 0 0" for idx
    by (rule firstReady_indep [OF k])
  have "ShortestRemainingTime curTime procList timeQuantum s2 = Inr (int ?j, \<lparr>index = ?j, runTime = 0\<rparr>)"
    if "runTime s2 = 0 \<and> index s2 < length procList" for s2
    using that eligible_not_allDone [OF k] fr [of "index s2"]
    by (simp add: ShortestRemainingTime_def Let_def countDone_allDone)
  with j show "\<exists>j<length procList. \<forall>s2. runTime s2 = 0 \<and> index s2 < length procList
       \<longrightarrow> ShortestRemainingTime curTime procList timeQuantum s2 = Inr (int j, \<lparr>index = j, runTime = 0\<rparr>)"
    by blast
qed

text \<open>
  The law at tick 0 of \<^const>\<open>mixedRoster\<close>: each policy selects, the selected process
  runs one tick, and the next call returns it again; Shortest Remaining Time answers the
  same from the initial state and from index 2.
\<close>

theorem non_preemption_law_witness:
  "index initSel < length mixedRoster \<and> 0 \<le> runTime initSel
   \<and> ShortestProcessNext 0 mixedRoster initSel = Inr (1, \<lparr>index = 1, runTime = 1\<rparr>)
   \<and> \<not> isDone (applyDecision 1 mixedRoster ! 1)
   \<and> answers ShortestProcessNext \<lparr>index = 1, runTime = 1\<rparr> [(1, applyDecision 1 mixedRoster)]
       = Inr ([1], \<lparr>index = 1, runTime = 2\<rparr>)
   \<and> HighestResponseRatioNext 0 mixedRoster initSel = Inr (0, \<lparr>index = 0, runTime = 1\<rparr>)
   \<and> \<not> isDone (applyDecision 0 mixedRoster ! 0)
   \<and> answers HighestResponseRatioNext \<lparr>index = 0, runTime = 1\<rparr> [(1, applyDecision 0 mixedRoster)]
       = Inr ([0], \<lparr>index = 0, runTime = 2\<rparr>)
   \<and> eligible 0 (mixedRoster ! 0)
   \<and> ShortestRemainingTime 0 mixedRoster 2 initSel = Inr (1, \<lparr>index = 1, runTime = 0\<rparr>)
   \<and> ShortestRemainingTime 0 mixedRoster 2 \<lparr>index = 2, runTime = 0\<rparr>
       = Inr (1, \<lparr>index = 1, runTime = 0\<rparr>)"
proof -
  have h1: "index initSel < length mixedRoster" and h2: "0 \<le> runTime initSel"
    by (simp_all add: initSel_def mixedRoster_def)
  note law = non_preemption_law [OF h1 h2, of 0 2]
  have ev: ?thesis by code_simp
  from law show ?thesis using ev by blast
qed

subsection \<open>C2: Round Robin before any arrival\<close>

text \<open>
  Claim C2: when no process has arrived, a call of Round Robin returns the idle decision
  \<open>-1\<close> and does not read the front of the empty ready queue. The source does read it:
  on \<^const>\<open>lateRoster\<close> at tick 0, from the initial state, the condition of line 25
  evaluates \<^verbatim>\<open>ready[0]\<close> on the empty queue when the quantum is 2, and the test of
  line 31 does when the quantum is 0.
\<close>

theorem RoundRobin_reads_empty_queue:
  "RoundRobin 0 lateRoster 2 (initRR 2) = Inl EmptyQueue
   \<and> RoundRobin 0 lateRoster 0 (initRR 0) = Inl EmptyQueue"
  by code_simp

text \<open>
  The same holds for every quantum and every roster in which no process starts at the tick
  of the first call.
\<close>

lemma RoundRobin_nothing_admitted:
  assumes "\<forall>p\<in>set procList. startTime p \<noteq> curTime"
  shows "RoundRobin curTime procList timeQuantum (initRR timeQuantum) = Inl EmptyQueue"
proof -
  have "fold (\<lambda>i r. if startTime (procList ! i) = curTime then r @ [i] else r) [0..<n] r = r"
    if "n \<le> length procList" for n r
    using that assms by (induction n) auto
  then show ?thesis
    by (simp add: RoundRobin_def admit_def initRR_def headIsDone_def)
qed

subsection \<open>C3: the state machine of the selecting policies\<close>

text \<open>
  Claim C3 states that every decision \<open>Run(i)\<close> of Shortest Process Next, Shortest
  Remaining Time and Highest Response Ratio Next is for a process that has arrived and is
  not done, that a new index is selected exactly when the selected process is done, and
  that the result is "all done" when the selected process is done and no process is
  eligible. The source contradicts it twice. In the arrival gap of \<^const>\<open>gapRoster\<close>,
  at tick 1, Shortest Process Next returns process 0, which is done. At tick 1 of
  \<^const>\<open>preemptRoster\<close>, Shortest Remaining Time selects process 1 while process 0,
  selected at tick 0, is not done.
\<close>

theorem state_machine_counterexample:
  "ShortestProcessNext 0 gapRoster initSel = Inr (0, \<lparr>index = 0, runTime = 1\<rparr>)
   \<and> isDone (applyDecision 0 gapRoster ! 0)
   \<and> \<not> allDone (applyDecision 0 gapRoster)
   \<and> ShortestProcessNext 1 (applyDecision 0 gapRoster) \<lparr>index = 0, runTime = 1\<rparr>
       = Inr (0, \<lparr>index = 0, runTime = 1\<rparr>)
   \<and> ShortestRemainingTime 0 preemptRoster 2 initSel = Inr (0, \<lparr>index = 0, runTime = 0\<rparr>)
   \<and> \<not> isDone (applyDecision 0 preemptRoster ! 0)
   \<and> ShortestRemainingTime 1 (applyDecision 0 preemptRoster) 2 \<lparr>index = 0, runTime = 0\<rparr>
       = Inr (1, \<lparr>index = 1, runTime = 0\<rparr>)"
  by code_simp

text \<open>
  C3 as amended, for each of the three policies, the selected index inside the roster. At
  a decision point (the run length is 0, or the selected process is done) with an eligible
  process in the roster, the decision is \<open>Run(j)\<close> for an eligible \<open>j\<close>, which becomes
  the selected index. While the run length is not 0 and the selected process is not done,
  the decision is the selected index and the selection is kept. When every process is done
  the result is \<open>-1\<close>. The run length after the call is 1 at a decision point and one
  more than before otherwise; Shortest Remaining Time adds nothing to it, so run length 0
  stays 0 and each of its calls is a decision point.
\<close>

theorem selection_state_machine:
  assumes "index s < length procList"
  shows "(((runTime s = 0 \<or> isDone (procList ! index s))
             \<and> (\<exists>k<length procList. eligible curTime (procList ! k))
            \<longrightarrow> (\<exists>j<length procList. eligible curTime (procList ! j)
                   \<and> ShortestProcessNext curTime procList s = Inr (int j, \<lparr>index = j, runTime = 1\<rparr>)))
         \<and> (runTime s \<noteq> 0 \<and> \<not> isDone (procList ! index s)
            \<longrightarrow> ShortestProcessNext curTime procList s
                  = Inr (int (index s), \<lparr>index = index s, runTime = runTime s + 1\<rparr>))
         \<and> (allDone procList \<longrightarrow> (\<exists>s'. ShortestProcessNext curTime procList s = Inr (- 1, s'))))
       \<and> (((runTime s = 0 \<or> isDone (procList ! index s))
             \<and> (\<exists>k<length procList. eligible curTime (procList ! k))
            \<longrightarrow> (\<exists>j<length procList. eligible curTime (procList ! j)
                   \<and> ShortestRemainingTime curTime procList timeQuantum s
                       = Inr (int j, \<lparr>index = j, runTime = 0\<rparr>)))
         \<and> (runTime s \<noteq> 0 \<and> \<not> isDone (procList ! index s)
            \<longrightarrow> ShortestRemainingTime curTime procList timeQuantum s
                  = Inr (int (index s), \<lparr>index = index s, runTime = runTime s + 0\<rparr>))
         \<and> (allDone procList
            \<longrightarrow> (\<exists>s'. ShortestRemainingTime curTime procList timeQuantum s = Inr (- 1, s'))))
       \<and> (((runTime s = 0 \<or> isDone (procList ! index s))
             \<and> (\<exists>k<length procList. eligible curTime (procList ! k))
            \<longrightarrow> (\<exists>j<length procList. eligible curTime (procList ! j)
                   \<and> HighestResponseRatioNext curTime procList s
                       = Inr (int j, \<lparr>index = j, runTime = 1\<rparr>)))
         \<and> (runTime s \<noteq> 0 \<and> \<not> isDone (procList ! index s)
            \<longrightarrow> HighestResponseRatioNext curTime procList s
                  = Inr (int (index s), \<lparr>index = index s, runTime = runTime s + 1\<rparr>))
         \<and> (allDone procList
            \<longrightarrow> (\<exists>s'. HighestResponseRatioNext curTime procList s = Inr (- 1, s'))))"
  unfolding ShortestProcessNext_selectBy ShortestRemainingTime_selectBy
    HighestResponseRatioNext_selectBy
  by (intro conjI selectBy_machine [OF assms])

text \<open>
  The three cases on concrete calls: a selection at tick 0 of \<^const>\<open>mixedRoster\<close>, the
  selection kept at tick 1, and a roster of one process that is done.
\<close>

theorem selection_state_machine_witness:
  "index initSel < length mixedRoster
   \<and> runTime initSel = 0 \<and> eligible 0 (mixedRoster ! 0)
   \<and> ShortestProcessNext 0 mixedRoster initSel = Inr (1, \<lparr>index = 1, runTime = 1\<rparr>)
   \<and> eligible 0 (mixedRoster ! 1)
   \<and> ShortestRemainingTime 0 mixedRoster 2 initSel = Inr (1, \<lparr>index = 1, runTime = 0\<rparr>)
   \<and> HighestResponseRatioNext 0 mixedRoster initSel = Inr (0, \<lparr>index = 0, runTime = 1\<rparr>)
   \<and> index \<lparr>index = 1, runTime = 1\<rparr> < length (applyDecision 1 mixedRoster)
   \<and> runTime \<lparr>index = 1, runTime = 1\<rparr> \<noteq> 0
   \<and> \<not> isDone (applyDecision 1 mixedRoster ! 1)
   \<and> ShortestProcessNext 1 (applyDecision 1 mixedRoster) \<lparr>index = 1, runTime = 1\<rparr>
       = Inr (1, \<lparr>index = 1, runTime = 2\<rparr>)
   \<and> allDone (applyDecision 0 [mkProcess 0 1])
   \<and> ShortestProcessNext 1 (applyDecision 0 [mkProcess 0 1]) \<lparr>index = 0, runTime = 1\<rparr>
       = Inr (- 1, \<lparr>index = 0, runTime = 1\<rparr>)"
proof -
  have h1: "index initSel < length mixedRoster"
    by (simp add: initSel_def mixedRoster_def)
  have h2: "index \<lparr>index = 1, runTime = 1\<rparr> < length (applyDecision 1 mixedRoster)"
    by (simp add: length_applyDecision mixedRoster_def)
  have h3: "index \<lparr>index = 0, runTime = 1\<rparr> < length (applyDecision 0 [mkProcess 0 1])"
    by (simp add: length_applyDecision)
  note m1 = selection_state_machine [OF h1, of 0 2] and m2 = selection_state_machine [OF h2, of 1 2] and m3 = selection_state_machine [OF h3, of 1 2]
  have ev: ?thesis by code_simp
  from m1 m2 m3 show ?thesis using ev by blast
qed

subsection \<open>C4: the selection rule of Shortest Process Next\<close>

text \<open>
  Claim C4: at a decision point with an eligible process in the roster, Shortest Process
  Next returns the eligible process with the least time needed, and among those the one
  with the least index. The decision point is the call that finds the run length 0 at the
  selection: the run length is 0 on entry (the first call), or the selected process is done
  and lines 70-72 reset it. On the roster of two processes that arrive at 0 and need 4, the
  first call at tick 0 returns process 0.
\<close>

theorem ShortestProcessNext_selection_rule:
  assumes "runTime s = 0 \<or> isDone (procList ! index s)" "index s < length procList"
    and "\<exists>k<length procList. eligible curTime (procList ! k)"
  shows "(\<exists>j<length procList.
            ShortestProcessNext curTime procList s = Inr (int j, \<lparr>index = j, runTime = 1\<rparr>)
          \<and> eligible curTime (procList ! j)
          \<and> (\<forall>k<length procList. eligible curTime (procList ! k)
                \<longrightarrow> totalTimeNeeded (procList ! j) \<le> totalTimeNeeded (procList ! k))
          \<and> (\<forall>k<j. eligible curTime (procList ! k)
                \<longrightarrow> totalTimeNeeded (procList ! j) < totalTimeNeeded (procList ! k)))
       \<and> ShortestProcessNext 0 tieRoster initSel = Inr (0, \<lparr>index = 0, runTime = 1\<rparr>)"
proof
  obtain k where k: "k < length procList" "eligible curTime (procList ! k)"
    using assms(3) by blast
  show "\<exists>j<length procList.
            ShortestProcessNext curTime procList s = Inr (int j, \<lparr>index = j, runTime = 1\<rparr>)
          \<and> eligible curTime (procList ! j)
          \<and> (\<forall>k<length procList. eligible curTime (procList ! k)
                \<longrightarrow> totalTimeNeeded (procList ! j) \<le> totalTimeNeeded (procList ! k))
          \<and> (\<forall>k<j. eligible curTime (procList ! k)
                \<longrightarrow> totalTimeNeeded (procList ! j) < totalTimeNeeded (procList ! k))"
    unfolding ShortestProcessNext_selectBy
    using selectBy_best [where key = "\<lambda>x. totalTimeNeeded (procList ! x)"
        and better = "\<lambda>x i. totalTimeNeeded (procList ! x) < totalTimeNeeded (procList ! i)"
        and inc = 1, OF assms(2,1) k]
    by blast
  show "ShortestProcessNext 0 tieRoster initSel = Inr (0, \<lparr>index = 0, runTime = 1\<rparr>)"
    by code_simp
qed

text \<open>
  The rule at both kinds of decision point. At tick 0 of \<^const>\<open>mixedRoster\<close>, the first
  call, it determines the decision: process 1, the shorter of the two that have arrived.
  On \<^const>\<open>reselectRoster\<close> process 0 runs at tick 0 and is done; the call of tick 1
  finds run length 1 and the selected process done, and selects process 2, the shorter of
  the two that are left.
\<close>

theorem ShortestProcessNext_selection_rule_witness:
  "runTime initSel = 0 \<and> index initSel < length mixedRoster
   \<and> eligible 0 (mixedRoster ! 0) \<and> eligible 0 (mixedRoster ! 1)
   \<and> ShortestProcessNext 0 mixedRoster initSel = Inr (1, \<lparr>index = 1, runTime = 1\<rparr>)
   \<and> simulate ShortestProcessNext 1 0 reselectRoster initSel
       = Inr ([0], applyDecision 0 reselectRoster, \<lparr>index = 0, runTime = 1\<rparr>)
   \<and> runTime \<lparr>index = 0, runTime = 1\<rparr> = 1
   \<and> isDone (applyDecision 0 reselectRoster ! index \<lparr>index = 0, runTime = 1\<rparr>)
   \<and> index \<lparr>index = 0, runTime = 1\<rparr> < length (applyDecision 0 reselectRoster)
   \<and> eligible 1 (applyDecision 0 reselectRoster ! 1)
   \<and> eligible 1 (applyDecision 0 reselectRoster ! 2)
   \<and> ShortestProcessNext 1 (applyDecision 0 reselectRoster) \<lparr>index = 0, runTime = 1\<rparr>
       = Inr (2, \<lparr>index = 2, runTime = 1\<rparr>)"
proof -
  have h1: "runTime initSel = 0 \<or> isDone (mixedRoster ! index initSel)"
    by (simp add: initSel_def)
  have h2: "index initSel < length mixedRoster" by (simp add: initSel_def mixedRoster_def)
  have e0: "eligible 0 (mixedRoster ! 0)" and e1: "eligible 0 (mixedRoster ! 1)"
    by (simp_all add: eligible_def mixedRoster_def mkProcess_def)
  have h3: "\<exists>k<length mixedRoster. eligible 0 (mixedRoster ! k)"
    using e0 by (intro exI [of _ 0]) (simp add: mixedRoster_def)
  have need: "totalTimeNeeded (mixedRoster ! 0) = 5" "totalTimeNeeded (mixedRoster ! 1) = 3"
    "length mixedRoster = 3" "\<not> eligible 0 (mixedRoster ! 2)"
    by (simp_all add: mixedRoster_def mkProcess_def eligible_def)
  obtain j where j: "j < length mixedRoster"
      "ShortestProcessNext 0 mixedRoster initSel = Inr (int j, \<lparr>index = j, runTime = 1\<rparr>)"
      "eligible 0 (mixedRoster ! j)"
      "\<forall>k<length mixedRoster. eligible 0 (mixedRoster ! k)
          \<longrightarrow> totalTimeNeeded (mixedRoster ! j) \<le> totalTimeNeeded (mixedRoster ! k)"
    using ShortestProcessNext_selection_rule [OF h1 h2 h3] by blast
  have "j = 0 \<or> j = 1 \<or> j = 2" using j(1) need(3) by auto
  moreover have "j \<noteq> 0"
  proof
    assume "j = 0"
    moreover have "totalTimeNeeded (mixedRoster ! j) \<le> totalTimeNeeded (mixedRoster ! 1)"
      using j(4) e1 need(3) by simp
    ultimately show False using need(1,2) by simp
  qed
  moreover have "j \<noteq> 2" using j(3) need(4) by auto
  ultimately have "j = 1" by auto
  with j(2) have first: "ShortestProcessNext 0 mixedRoster initSel = Inr (1, \<lparr>index = 1, runTime = 1\<rparr>)"
    by simp
  let ?s = "\<lparr>index = 0, runTime = 1\<rparr>" and ?ps = "applyDecision 0 reselectRoster"
  have d: "isDone (?ps ! index ?s)" by code_simp
  then have g1: "runTime ?s = 0 \<or> isDone (?ps ! index ?s)" by simp
  have g2: "index ?s < length ?ps" by (simp add: length_applyDecision reselectRoster_def)
  have f1: "eligible 1 (?ps ! 1)" and f2: "eligible 1 (?ps ! 2)" by code_simp+
  have g3: "\<exists>k<length ?ps. eligible 1 (?ps ! k)"
    using f1 by (intro exI [of _ 1]) (simp add: length_applyDecision reselectRoster_def)
  note again = ShortestProcessNext_selection_rule [OF g1 g2 g3]
  have ev: "simulate ShortestProcessNext 1 0 reselectRoster initSel = Inr ([0], ?ps, ?s)"
    "ShortestProcessNext 1 ?ps ?s = Inr (2, \<lparr>index = 2, runTime = 1\<rparr>)"
    by code_simp+
  from again show ?thesis
    using first ev d g2 f1 f2 e0 e1 h2 by (simp add: initSel_def)
qed

subsection \<open>C5: the selection rule of Highest Response Ratio Next\<close>

text \<open>
  Claim C5: at a decision point with an eligible process, all times needed positive,
  Highest Response Ratio Next returns an index that maximises the response ratio
  \<open>(waitingTime + serviceTimeNeeded) / serviceTimeNeeded\<close> over the eligible processes.
  The source computes the ratio in \<^verbatim>\<open>float\<close>. On \<^const>\<open>roundedRoster\<close> at tick 1
  no subtraction overflows, both processes are eligible, the exact ratio of process 1 is
  greater than that of process 0, both computed ratios are 1, and the call returns
  process 0.
\<close>

theorem HighestResponseRatioNext_rounding_counterexample:
  "runTime initSel = 0 \<and> index initSel < length roundedRoster
   \<and> list_all (\<lambda>p. 0 < totalTimeNeeded p) roundedRoster
   \<and> list_all (noOverflow 1) roundedRoster
   \<and> eligible 1 (roundedRoster ! 0) \<and> eligible 1 (roundedRoster ! 1)
   \<and> specResponseRatio 1 (roundedRoster ! 0) < specResponseRatio 1 (roundedRoster ! 1)
   \<and> responseRatio 1 (roundedRoster ! 0) = Fin 1
   \<and> responseRatio 1 (roundedRoster ! 1) = Fin 1
   \<and> HighestResponseRatioNext 1 roundedRoster initSel = Inr (0, \<lparr>index = 0, runTime = 1\<rparr>)"
  by code_simp

text \<open>
  C5 as amended. At a decision point (the run length is 0 on entry, or the selected process
  is done and lines 158-160 reset it) with an eligible process, all times needed positive
  and no subtraction of a waiting time overflowing, the returned index is eligible and
  maximises the ratio as the source computes it, in single precision: no eligible process
  has a greater computed ratio, and every eligible process of lower index has a smaller
  one. The computed ratio of a process is the formula of the claim with the exact integer
  waiting time, the conversions, the sum and the quotient each rounded to
  \<^verbatim>\<open>float\<close>.
\<close>

theorem HighestResponseRatioNext_selection_rule:
  assumes "runTime s = 0 \<or> isDone (procList ! index s)" "index s < length procList"
    and "\<forall>p\<in>set procList. 0 < totalTimeNeeded p"
    and "\<forall>p\<in>set procList. noOverflow curTime p"
    and "\<exists>k<length procList. eligible curTime (procList ! k)"
  shows "(\<exists>j<length procList.
            HighestResponseRatioNext curTime procList s = Inr (int j, \<lparr>index = j, runTime = 1\<rparr>)
          \<and> eligible curTime (procList ! j)
          \<and> (\<forall>k<length procList. eligible curTime (procList ! k)
                \<longrightarrow> \<not> floatGreater (responseRatio curTime (procList ! k))
                                    (responseRatio curTime (procList ! j)))
          \<and> (\<forall>k<j. eligible curTime (procList ! k)
                \<longrightarrow> floatGreater (responseRatio curTime (procList ! j))
                                  (responseRatio curTime (procList ! k))))
       \<and> (\<forall>k<length procList.
            responseRatio curTime (procList ! k) =
              floatDiv (floatOfInt
                          (floatOfInt (curTime - startTime (procList ! k)
                                         - timeScheduled (procList ! k))
                           + floatOfInt (totalTimeNeeded (procList ! k))))
                       (floatOfInt (totalTimeNeeded (procList ! k))))"
proof
  obtain k where k: "k < length procList" "eligible curTime (procList ! k)"
    using assms(5) by blast
  define val where "val f = (case f of Fin q \<Rightarrow> q | _ \<Rightarrow> 0)" for f :: fval
  define key where "key x = - val (responseRatio curTime (procList ! x))" for x
  have fin: "\<exists>q. responseRatio curTime (procList ! x) = Fin q" if "x < length procList" for x
    using assms(3) that by (intro responseRatio_Fin) (metis less_irrefl nth_mem)
  have gt: "floatGreater (responseRatio curTime (procList ! x)) (responseRatio curTime (procList ! i))
              \<longleftrightarrow> key x < key i"
    if "x < length procList" "i < length procList" for x i
    using fin [OF that(1)] fin [OF that(2)] by (auto simp: key_def val_def)
  obtain j where j: "j < length procList" "eligible curTime (procList ! j)"
      "\<forall>k<length procList. eligible curTime (procList ! k) \<longrightarrow> key j \<le> key k"
      "\<forall>k<j. eligible curTime (procList ! k) \<longrightarrow> key j < key k"
      "HighestResponseRatioNext curTime procList s = Inr (int j, \<lparr>index = j, runTime = 1\<rparr>)"
    unfolding HighestResponseRatioNext_selectBy
    using selectBy_best [where key = key and inc = 1
        and better = "\<lambda>x i. floatGreater (responseRatio curTime (procList ! x))
                                          (responseRatio curTime (procList ! i))",
        OF assms(2,1) k gt]
    by blast
  have "\<not> floatGreater (responseRatio curTime (procList ! k)) (responseRatio curTime (procList ! j))"
    if "k < length procList" "eligible curTime (procList ! k)" for k
    using j(3) that gt [OF that(1) j(1)] by (simp add: not_less)
  moreover have "floatGreater (responseRatio curTime (procList ! j)) (responseRatio curTime (procList ! k))"
    if "k < j" "eligible curTime (procList ! k)" for k
  proof -
    have "k < length procList" using that(1) j(1) by simp
    then show ?thesis using j(4) that gt [OF j(1)] by simp
  qed
  ultimately show "\<exists>j<length procList.
            HighestResponseRatioNext curTime procList s = Inr (int j, \<lparr>index = j, runTime = 1\<rparr>)
          \<and> eligible curTime (procList ! j)
          \<and> (\<forall>k<length procList. eligible curTime (procList ! k)
                \<longrightarrow> \<not> floatGreater (responseRatio curTime (procList ! k))
                                    (responseRatio curTime (procList ! j)))
          \<and> (\<forall>k<j. eligible curTime (procList ! k)
                \<longrightarrow> floatGreater (responseRatio curTime (procList ! j))
                                  (responseRatio curTime (procList ! k)))"
    using j(1,2,5) by blast
  show "\<forall>k<length procList.
            responseRatio curTime (procList ! k) =
              floatDiv (floatOfInt
                          (floatOfInt (curTime - startTime (procList ! k)
                                         - timeScheduled (procList ! k))
                           + floatOfInt (totalTimeNeeded (procList ! k))))
                       (floatOfInt (totalTimeNeeded (procList ! k)))"
    using assms(4) by (intro allI impI responseRatio_no_overflow) simp
qed

text \<open>
  The rule at both kinds of decision point. At tick 4 of \<^const>\<open>waitingRoster\<close>, a first
  call, the computed ratios are 2 and 3, and process 1 is returned. On
  \<^const>\<open>ratioRoster\<close> process 0 runs at ticks 0 and 1 and is done; the call of tick 2
  finds run length 2 and the selected process done, the computed ratios of the two
  processes left are \<open>3/2\<close> and 2, and process 2 is selected. In the scenario of section
  8 of the spec, \<^const>\<open>hrrnRoster\<close>, process 0 is returned at ticks 0 to 4 and is done;
  the call of tick 5 finds run length 5 and switches to process 1.
\<close>

theorem HighestResponseRatioNext_selection_rule_witness:
  "runTime initSel = 0 \<and> index initSel < length waitingRoster
   \<and> list_all (\<lambda>p. 0 < totalTimeNeeded p) waitingRoster
   \<and> list_all (noOverflow 4) waitingRoster
   \<and> eligible 4 (waitingRoster ! 0) \<and> eligible 4 (waitingRoster ! 1)
   \<and> responseRatio 4 (waitingRoster ! 0) = Fin 2
   \<and> responseRatio 4 (waitingRoster ! 1) = Fin 3
   \<and> HighestResponseRatioNext 4 waitingRoster initSel = Inr (1, \<lparr>index = 1, runTime = 1\<rparr>)
   \<and> simulate HighestResponseRatioNext 2 0 ratioRoster initSel
       = Inr ([0, 0], applyDecision 0 (applyDecision 0 ratioRoster), \<lparr>index = 0, runTime = 2\<rparr>)
   \<and> isDone (applyDecision 0 (applyDecision 0 ratioRoster) ! index \<lparr>index = 0, runTime = 2\<rparr>)
   \<and> index \<lparr>index = 0, runTime = 2\<rparr> < length (applyDecision 0 (applyDecision 0 ratioRoster))
   \<and> list_all (\<lambda>p. 0 < totalTimeNeeded p) (applyDecision 0 (applyDecision 0 ratioRoster))
   \<and> list_all (noOverflow 2) (applyDecision 0 (applyDecision 0 ratioRoster))
   \<and> eligible 2 (applyDecision 0 (applyDecision 0 ratioRoster) ! 1)
   \<and> eligible 2 (applyDecision 0 (applyDecision 0 ratioRoster) ! 2)
   \<and> responseRatio 2 (applyDecision 0 (applyDecision 0 ratioRoster) ! 1) = Fin (3 / 2)
   \<and> responseRatio 2 (applyDecision 0 (applyDecision 0 ratioRoster) ! 2) = Fin 2
   \<and> HighestResponseRatioNext 2 (applyDecision 0 (applyDecision 0 ratioRoster))
        \<lparr>index = 0, runTime = 2\<rparr>
       = Inr (2, \<lparr>index = 2, runTime = 1\<rparr>)
   \<and> simulate HighestResponseRatioNext 5 0 hrrnRoster initSel
       = Inr ([0, 0, 0, 0, 0],
              applyDecision 0 (applyDecision 0 (applyDecision 0 (applyDecision 0 (applyDecision 0 hrrnRoster)))),
              \<lparr>index = 0, runTime = 5\<rparr>)
   \<and> isDone (applyDecision 0 (applyDecision 0 (applyDecision 0 (applyDecision 0 (applyDecision 0 hrrnRoster))))
               ! index \<lparr>index = 0, runTime = 5\<rparr>)
   \<and> list_all (noOverflow 5)
        (applyDecision 0 (applyDecision 0 (applyDecision 0 (applyDecision 0 (applyDecision 0 hrrnRoster)))))
   \<and> eligible 5 (applyDecision 0 (applyDecision 0 (applyDecision 0 (applyDecision 0 (applyDecision 0 hrrnRoster)))) ! 1)
   \<and> HighestResponseRatioNext 5
        (applyDecision 0 (applyDecision 0 (applyDecision 0 (applyDecision 0 (applyDecision 0 hrrnRoster)))))
        \<lparr>index = 0, runTime = 5\<rparr>
       = Inr (1, \<lparr>index = 1, runTime = 1\<rparr>)"
proof -
  have h1: "runTime initSel = 0 \<or> isDone (waitingRoster ! index initSel)"
    and h2: "index initSel < length waitingRoster"
    by (simp_all add: initSel_def waitingRoster_def)
  have h3: "\<forall>p\<in>set waitingRoster. 0 < totalTimeNeeded p"
    by (simp add: waitingRoster_def mkProcess_def)
  have h4: "\<forall>p\<in>set waitingRoster. noOverflow 4 p"
    by (simp add: waitingRoster_def mkProcess_def noOverflow_def inRange32_def)
  have "eligible 4 (waitingRoster ! 0)"
    by (simp add: eligible_def waitingRoster_def mkProcess_def)
  then have h5: "\<exists>k<length waitingRoster. eligible 4 (waitingRoster ! k)"
    by (intro exI [of _ 0]) (simp add: waitingRoster_def)
  note first = HighestResponseRatioNext_selection_rule [OF h1 h2 h3 h4 h5]
  let ?s = "\<lparr>index = 0, runTime = 2\<rparr>" and ?ps = "applyDecision 0 (applyDecision 0 ratioRoster)"
  have d: "isDone (?ps ! index ?s)" by code_simp
  then have g1: "runTime ?s = 0 \<or> isDone (?ps ! index ?s)" by simp
  have g2: "index ?s < length ?ps" by (simp add: length_applyDecision ratioRoster_def)
  have "list_all (\<lambda>p. 0 < totalTimeNeeded p) ?ps" by code_simp
  then have g3: "\<forall>p\<in>set ?ps. 0 < totalTimeNeeded p" by (simp add: list_all_iff)
  have "list_all (noOverflow 2) ?ps" by code_simp
  then have g4: "\<forall>p\<in>set ?ps. noOverflow 2 p" by (simp add: list_all_iff)
  have "eligible 2 (?ps ! 1)" by code_simp
  then have g5: "\<exists>k<length ?ps. eligible 2 (?ps ! k)"
    by (intro exI [of _ 1]) (simp add: length_applyDecision ratioRoster_def)
  note again = HighestResponseRatioNext_selection_rule [OF g1 g2 g3 g4 g5]
  let ?t = "\<lparr>index = 0, runTime = 5\<rparr>"
    and ?qs = "applyDecision 0 (applyDecision 0 (applyDecision 0 (applyDecision 0 (applyDecision 0 hrrnRoster))))"
  have "isDone (?qs ! index ?t)" by code_simp
  then have k1: "runTime ?t = 0 \<or> isDone (?qs ! index ?t)" by simp
  have k2: "index ?t < length ?qs" by (simp add: length_applyDecision hrrnRoster_def)
  have "list_all (\<lambda>p. 0 < totalTimeNeeded p) ?qs" by code_simp
  then have k3: "\<forall>p\<in>set ?qs. 0 < totalTimeNeeded p" by (simp add: list_all_iff)
  have "list_all (noOverflow 5) ?qs" by code_simp
  then have k4: "\<forall>p\<in>set ?qs. noOverflow 5 p" by (simp add: list_all_iff)
  have "eligible 5 (?qs ! 1)" by code_simp
  then have k5: "\<exists>k<length ?qs. eligible 5 (?qs ! k)"
    by (intro exI [of _ 1]) (simp add: length_applyDecision hrrnRoster_def)
  note switch = HighestResponseRatioNext_selection_rule [OF k1 k2 k3 k4 k5]
  have ev: ?thesis by code_simp
  from first again switch show ?thesis using ev by blast
qed

subsection \<open>C6: the Round Robin scenario\<close>

text \<open>
  Claim C6: with quantum 2 on the roster P0 (arrival 0, need 3), P1 (arrival 1, need 2),
  from the initial state and with each decision applied before the next tick, the
  decisions of ticks 0 to 4 are P0, P0, P1, P1, P0; P1 finishes at tick 3 (it is not done
  after tick 2 and done after tick 3) and P0 at tick 4.
\<close>

theorem RoundRobin_scenario:
  "simulate (\<lambda>t ps. RoundRobin t ps 2) 5 0 rrRoster (initRR 2)
     = Inr ([0, 0, 1, 1, 0],
            [\<lparr>startTime = 0, totalTimeNeeded = 3, timeScheduled = 3, isDone = True\<rparr>,
             \<lparr>startTime = 1, totalTimeNeeded = 2, timeScheduled = 2, isDone = True\<rparr>],
            \<lparr>timeToNextSched = 1, ready = [0]\<rparr>)
   \<and> simulate (\<lambda>t ps. RoundRobin t ps 2) 4 0 rrRoster (initRR 2)
     = Inr ([0, 0, 1, 1],
            [\<lparr>startTime = 0, totalTimeNeeded = 3, timeScheduled = 2, isDone = False\<rparr>,
             \<lparr>startTime = 1, totalTimeNeeded = 2, timeScheduled = 2, isDone = True\<rparr>],
            \<lparr>timeToNextSched = 0, ready = [1, 0]\<rparr>)
   \<and> simulate (\<lambda>t ps. RoundRobin t ps 2) 3 0 rrRoster (initRR 2)
     = Inr ([0, 0, 1],
            [\<lparr>startTime = 0, totalTimeNeeded = 3, timeScheduled = 2, isDone = False\<rparr>,
             \<lparr>startTime = 1, totalTimeNeeded = 2, timeScheduled = 1, isDone = False\<rparr>],
            \<lparr>timeToNextSched = 1, ready = [1, 0]\<rparr>)"
  by code_simp

subsection \<open>C7: conservation\<close>

text \<open>
  Claim C7: under the driver of section 6, the number of ticks at which a process is
  returned equals the sum of the times needed. On \<^const>\<open>gapRoster\<close> Shortest Process
  Next returns a process at six ticks, four of them in the arrival gap for process 0,
  which is done, and the sum of the times needed is 2.
\<close>

theorem conservation_fails_on_arrival_gap:
  "simulate ShortestProcessNext 7 0 gapRoster initSel
     = Inr ([0, 0, 0, 0, 0, 1, - 1],
            [\<lparr>startTime = 0, totalTimeNeeded = 1, timeScheduled = 5, isDone = True\<rparr>,
             \<lparr>startTime = 5, totalTimeNeeded = 1, timeScheduled = 1, isDone = True\<rparr>],
            \<lparr>index = 1, runTime = 1\<rparr>)
   \<and> length (filter (\<lambda>d. d \<noteq> - 1) [0, 0, 0, 0, 0, 1, - 1 :: int]) = 6
   \<and> sum_list (map totalTimeNeeded gapRoster) = 2"
  by code_simp

text \<open>
  Without a gap the count is the sum. On a fresh roster whose processes have all arrived
  by the first tick, each of the three selecting policies returns a process at each of
  the first \<open>sum of totalTimeNeeded\<close> ticks, and every process is done after them.
\<close>

lemma selecting_policies_conserve:
  assumes "procList \<noteq> []" "fresh procList" "\<forall>k<length procList. startTime (procList ! k) \<le> t"
  shows "\<exists>ds ps' s'. simulate ShortestProcessNext (nat (sum_list (map totalTimeNeeded procList)))
               t procList initSel = Inr (ds, ps', s')
           \<and> - 1 \<notin> set ds \<and> int (length ds) = sum_list (map totalTimeNeeded procList)
           \<and> allDone ps'"
    and "\<exists>ds ps' s'. simulate (\<lambda>t ps. ShortestRemainingTime t ps q)
               (nat (sum_list (map totalTimeNeeded procList))) t procList initSel
             = Inr (ds, ps', s')
           \<and> - 1 \<notin> set ds \<and> int (length ds) = sum_list (map totalTimeNeeded procList)
           \<and> allDone ps'"
    and "\<exists>ds ps' s'. simulate HighestResponseRatioNext
               (nat (sum_list (map totalTimeNeeded procList))) t procList initSel
             = Inr (ds, ps', s')
           \<and> - 1 \<notin> set ds \<and> int (length ds) = sum_list (map totalTimeNeeded procList)
           \<and> allDone ps'"
proof -
  show "\<exists>ds ps' s'. simulate ShortestProcessNext (nat (sum_list (map totalTimeNeeded procList)))
               t procList initSel = Inr (ds, ps', s')
           \<and> - 1 \<notin> set ds \<and> int (length ds) = sum_list (map totalTimeNeeded procList)
           \<and> allDone ps'"
    by (rule run_conserves_fresh [of ShortestProcessNext, OF SPN_progress assms])
  show "\<exists>ds ps' s'. simulate (\<lambda>t ps. ShortestRemainingTime t ps q)
               (nat (sum_list (map totalTimeNeeded procList))) t procList initSel
             = Inr (ds, ps', s')
           \<and> - 1 \<notin> set ds \<and> int (length ds) = sum_list (map totalTimeNeeded procList)
           \<and> allDone ps'"
    by (rule run_conserves_fresh [of "\<lambda>t ps. ShortestRemainingTime t ps q",
          OF SRT_progress assms])
  show "\<exists>ds ps' s'. simulate HighestResponseRatioNext
               (nat (sum_list (map totalTimeNeeded procList))) t procList initSel
             = Inr (ds, ps', s')
           \<and> - 1 \<notin> set ds \<and> int (length ds) = sum_list (map totalTimeNeeded procList)
           \<and> allDone ps'"
    by (rule run_conserves_fresh [of HighestResponseRatioNext, OF HRRN_progress assms])
qed

text \<open>
  The same for Round Robin, from its initial state, on a fresh roster whose processes all
  arrive at the first tick.
\<close>

lemma RoundRobin_conserves:
  assumes "procList \<noteq> []" "fresh procList" "\<forall>k<length procList. startTime (procList ! k) = t"
  shows "\<exists>ds ps' s'. simulate (\<lambda>t ps. RoundRobin t ps q)
               (nat (sum_list (map totalTimeNeeded procList))) t procList (initRR q)
             = Inr (ds, ps', s')
           \<and> - 1 \<notin> set ds \<and> int (length ds) = sum_list (map totalTimeNeeded procList)
           \<and> allDone ps'"
proof -
  note wf = fresh_wellFormed [OF assms(2)]
  have rem: "remaining procList = sum_list (map totalTimeNeeded procList)"
    by (rule fresh_remaining [OF assms(2)])
  have nn: "0 \<le> remaining procList" by (rule remaining_nonneg [OF wf])
  have "admit t procList (ready (initRR q)) = [0..<length procList]"
    using admit_all [OF assms(3), of "[]"] by (simp add: initRR_def)
  then have ok: "queueOk procList (admit t procList (ready (initRR q)))"
    using queueOk_fresh [OF assms(1,2)] by simp
  have le: "\<forall>k<length procList. startTime (procList ! k) \<le> t" using assms(3) by simp
  obtain ds ps' s' where r:
      "simulate (\<lambda>t ps. RoundRobin t ps q) (nat (remaining procList)) t procList (initRR q)
        = Inr (ds, ps', s')" "allDone ps'" "- 1 \<notin> set ds" "length ds = nat (remaining procList)"
    using RoundRobin_run [OF ok wf le] by blast
  have "int (length ds) = remaining procList" using r(4) nn by simp
  with r(1-3) show ?thesis unfolding rem by blast
qed

subsection \<open>C8: termination\<close>

text \<open>
  Claim C8: under the driver of section 6 every policy reaches its terminal decision, and
  the run of Round Robin ends. On \<^const>\<open>gapRoster\<close> with quantum 2, Round Robin returns
  process 0 at tick 0 and idle at tick 1, and at tick 2 it reads the front of the empty
  ready queue while process 1 has not run.
\<close>

theorem RoundRobin_run_fails_on_arrival_gap:
  "simulate (\<lambda>t ps. RoundRobin t ps 2) 2 0 gapRoster (initRR 2)
     = Inr ([0, - 1],
            [\<lparr>startTime = 0, totalTimeNeeded = 1, timeScheduled = 1, isDone = True\<rparr>,
             \<lparr>startTime = 5, totalTimeNeeded = 1, timeScheduled = 0, isDone = False\<rparr>],
            \<lparr>timeToNextSched = 0, ready = []\<rparr>)
   \<and> simulate (\<lambda>t ps. RoundRobin t ps 2) 3 0 gapRoster (initRR 2) = Inl EmptyQueue"
  by code_simp

text \<open>
  The three selecting policies do reach their terminal decision, on every well-formed
  roster that is not empty and from every first tick, arrival gaps included: after
  finitely many ticks every process is done, and the next call returns \<open>-1\<close>.
\<close>

lemma selecting_policies_terminate:
  assumes "procList \<noteq> []" "wellFormed procList"
  shows "\<exists>n ds ps' s'. simulate ShortestProcessNext n t procList initSel = Inr (ds, ps', s')
           \<and> - 1 \<notin> set ds \<and> allDone ps'
           \<and> (\<forall>t'. \<exists>s''. ShortestProcessNext t' ps' s' = Inr (- 1, s''))"
    and "\<exists>n ds ps' s'. simulate (\<lambda>t ps. ShortestRemainingTime t ps q) n t procList initSel
             = Inr (ds, ps', s')
           \<and> - 1 \<notin> set ds \<and> allDone ps'
           \<and> (\<forall>t'. \<exists>s''. ShortestRemainingTime t' ps' q s' = Inr (- 1, s''))"
    and "\<exists>n ds ps' s'. simulate HighestResponseRatioNext n t procList initSel = Inr (ds, ps', s')
           \<and> - 1 \<notin> set ds \<and> allDone ps'
           \<and> (\<forall>t'. \<exists>s''. HighestResponseRatioNext t' ps' s' = Inr (- 1, s''))"
proof -
  show "\<exists>n ds ps' s'. simulate ShortestProcessNext n t procList initSel = Inr (ds, ps', s')
           \<and> - 1 \<notin> set ds \<and> allDone ps'
           \<and> (\<forall>t'. \<exists>s''. ShortestProcessNext t' ps' s' = Inr (- 1, s''))"
    by (rule run_reaches_sentinel [of ShortestProcessNext, OF SPN_progress SPN_allDone assms])
  show "\<exists>n ds ps' s'. simulate (\<lambda>t ps. ShortestRemainingTime t ps q) n t procList initSel
             = Inr (ds, ps', s')
           \<and> - 1 \<notin> set ds \<and> allDone ps'
           \<and> (\<forall>t'. \<exists>s''. ShortestRemainingTime t' ps' q s' = Inr (- 1, s''))"
    by (rule run_reaches_sentinel [of "\<lambda>t ps. ShortestRemainingTime t ps q",
          OF SRT_progress SRT_allDone assms])
  show "\<exists>n ds ps' s'. simulate HighestResponseRatioNext n t procList initSel = Inr (ds, ps', s')
           \<and> - 1 \<notin> set ds \<and> allDone ps'
           \<and> (\<forall>t'. \<exists>s''. HighestResponseRatioNext t' ps' s' = Inr (- 1, s''))"
    by (rule run_reaches_sentinel [of HighestResponseRatioNext,
          OF HRRN_progress HRRN_allDone assms])
qed

subsection \<open>C9: the all-done sentinel\<close>

text \<open>
  Claim C9: on a non-empty roster, the selected index inside it (as it is in the initial
  state and after every call), each of Shortest Process Next, Shortest Remaining Time and
  Highest Response Ratio Next returns \<open>-1\<close> if and only if every process is done, and
  an index of the roster otherwise.
\<close>

theorem all_done_sentinel:
  assumes "procList \<noteq> []" "index s < length procList"
  shows "(\<exists>d s'. ShortestProcessNext curTime procList s = Inr (d, s')
            \<and> (d = - 1 \<longleftrightarrow> allDone procList)
            \<and> (\<not> allDone procList \<longrightarrow> 0 \<le> d \<and> d < int (length procList))
            \<and> index s' < length procList)
       \<and> (\<exists>d s'. ShortestRemainingTime curTime procList timeQuantum s = Inr (d, s')
            \<and> (d = - 1 \<longleftrightarrow> allDone procList)
            \<and> (\<not> allDone procList \<longrightarrow> 0 \<le> d \<and> d < int (length procList))
            \<and> index s' < length procList)
       \<and> (\<exists>d s'. HighestResponseRatioNext curTime procList s = Inr (d, s')
            \<and> (d = - 1 \<longleftrightarrow> allDone procList)
            \<and> (\<not> allDone procList \<longrightarrow> 0 \<le> d \<and> d < int (length procList))
            \<and> index s' < length procList)"
  unfolding ShortestProcessNext_selectBy ShortestRemainingTime_selectBy
    HighestResponseRatioNext_selectBy
  by (intro conjI selectBy_sentinel assms(2))

text \<open>
  Both sides on concrete rosters: \<^const>\<open>mixedRoster\<close>, not all done, and a roster of
  one process that is done.
\<close>

theorem all_done_sentinel_witness:
  "mixedRoster \<noteq> [] \<and> index initSel < length mixedRoster \<and> \<not> allDone mixedRoster
   \<and> ShortestProcessNext 0 mixedRoster initSel = Inr (1, \<lparr>index = 1, runTime = 1\<rparr>)
   \<and> ShortestRemainingTime 0 mixedRoster 2 initSel = Inr (1, \<lparr>index = 1, runTime = 0\<rparr>)
   \<and> HighestResponseRatioNext 0 mixedRoster initSel = Inr (0, \<lparr>index = 0, runTime = 1\<rparr>)
   \<and> allDone (applyDecision 0 [mkProcess 0 1])
   \<and> ShortestProcessNext 1 (applyDecision 0 [mkProcess 0 1]) initSel
       = Inr (- 1, \<lparr>index = 0, runTime = 1\<rparr>)
   \<and> ShortestRemainingTime 1 (applyDecision 0 [mkProcess 0 1]) 2 initSel
       = Inr (- 1, \<lparr>index = 0, runTime = 0\<rparr>)
   \<and> HighestResponseRatioNext 1 (applyDecision 0 [mkProcess 0 1]) initSel
       = Inr (- 1, \<lparr>index = 0, runTime = 1\<rparr>)"
proof -
  have h1: "mixedRoster \<noteq> []" and h2: "index initSel < length mixedRoster"
    by (simp_all add: initSel_def mixedRoster_def)
  have h4: "index initSel < length (applyDecision 0 [mkProcess 0 1])"
    by (simp add: initSel_def length_applyDecision)
  then have h3: "applyDecision 0 [mkProcess 0 1] \<noteq> []"
    by auto
  note a = all_done_sentinel [OF h1 h2, of 0 2] and b = all_done_sentinel [OF h3 h4, of 1 2]
  have ev: ?thesis by code_simp
  from a b show ?thesis using ev by blast
qed

subsection \<open>C10: the lock on index 0 before the first arrival\<close>

text \<open>
  Claim C10: when the first call of Shortest Process Next or Highest Response Ratio Next
  comes at a tick before every arrival, and not all processes are done, it returns index 0
  and leaves the run length at 1; every later call returns index 0 as well, whatever has
  arrived since, as long as process 0 is not done.
\<close>

theorem index0_lock_in:
  assumes "procList \<noteq> []" "\<forall>p\<in>set procList. curTime < startTime p" "\<not> allDone procList"
  shows "ShortestProcessNext curTime procList initSel = Inr (0, \<lparr>index = 0, runTime = 1\<rparr>)
       \<and> (\<forall>calls. (\<forall>(t, ps)\<in>set calls. ps \<noteq> [] \<and> \<not> isDone (ps ! 0))
            \<longrightarrow> answers ShortestProcessNext \<lparr>index = 0, runTime = 1\<rparr> calls
                  = Inr (replicate (length calls) 0, \<lparr>index = 0, runTime = 1 + int (length calls)\<rparr>))
       \<and> HighestResponseRatioNext curTime procList initSel = Inr (0, \<lparr>index = 0, runTime = 1\<rparr>)
       \<and> (\<forall>calls. (\<forall>(t, ps)\<in>set calls. ps \<noteq> [] \<and> \<not> isDone (ps ! 0))
            \<longrightarrow> answers HighestResponseRatioNext \<lparr>index = 0, runTime = 1\<rparr> calls
                  = Inr (replicate (length calls) 0, \<lparr>index = 0, runTime = 1 + int (length calls)\<rparr>))"
proof (intro conjI allI impI)
  show "ShortestProcessNext curTime procList initSel = Inr (0, \<lparr>index = 0, runTime = 1\<rparr>)"
    unfolding ShortestProcessNext_selectBy by (rule selectBy_before_arrival [OF assms])
  show "HighestResponseRatioNext curTime procList initSel = Inr (0, \<lparr>index = 0, runTime = 1\<rparr>)"
    unfolding HighestResponseRatioNext_selectBy by (rule selectBy_before_arrival [OF assms])
next
  fix calls :: "(int \<times> Process list) list"
  assume "\<forall>(t, ps)\<in>set calls. ps \<noteq> [] \<and> \<not> isDone (ps ! 0)"
  then show "answers ShortestProcessNext \<lparr>index = 0, runTime = 1\<rparr> calls
       = Inr (replicate (length calls) 0, \<lparr>index = 0, runTime = 1 + int (length calls)\<rparr>)"
    by (intro answers_index0 SPN_locked)
next
  fix calls :: "(int \<times> Process list) list"
  assume "\<forall>(t, ps)\<in>set calls. ps \<noteq> [] \<and> \<not> isDone (ps ! 0)"
  then show "answers HighestResponseRatioNext \<lparr>index = 0, runTime = 1\<rparr> calls
       = Inr (replicate (length calls) 0, \<lparr>index = 0, runTime = 1 + int (length calls)\<rparr>)"
    by (intro answers_index0 HRRN_locked)
qed

text \<open>
  On \<^const>\<open>lockRoster\<close>: the first call is at tick 0, before both arrivals; at tick 1
  process 1 has arrived and needs less, and the call returns process 0.
\<close>

theorem index0_lock_in_witness:
  "lockRoster \<noteq> [] \<and> list_all (\<lambda>p. 0 < startTime p) lockRoster \<and> \<not> allDone lockRoster
   \<and> ShortestProcessNext 0 lockRoster initSel = Inr (0, \<lparr>index = 0, runTime = 1\<rparr>)
   \<and> answers ShortestProcessNext \<lparr>index = 0, runTime = 1\<rparr>
        [(1, applyDecision 0 lockRoster)]
       = Inr ([0], \<lparr>index = 0, runTime = 2\<rparr>)
   \<and> HighestResponseRatioNext 0 lockRoster initSel = Inr (0, \<lparr>index = 0, runTime = 1\<rparr>)
   \<and> answers HighestResponseRatioNext \<lparr>index = 0, runTime = 1\<rparr>
        [(1, applyDecision 0 lockRoster)]
       = Inr ([0], \<lparr>index = 0, runTime = 2\<rparr>)"
proof -
  have h1: "lockRoster \<noteq> []" and h2: "\<forall>p\<in>set lockRoster. 0 < startTime p"
    and h3: "\<not> allDone lockRoster"
    by (simp_all add: lockRoster_def mkProcess_def allDone_def)
  note lock = index0_lock_in [OF h1 h2 h3]
  have ev: ?thesis by code_simp
  from lock show ?thesis using ev by blast
qed

end
